theory Spec2Isabelle
  imports Main "HOL-Library.Word" "HOL-Library.FSet" "HOL-Library.Finite_Map"
begin

section \<open>Tracked objects and the object memory\<close>

text \<open>
  A tracked object is identified by its address. Class \<open>Gc_object\<close> has the one data
  member \<open>mMarked\<close> and the virtual hook \<open>markChildren()\<close>, which a derived class
  overrides to call \<open>mark()\<close> on the objects it references. The collector never looks
  inside an object, so the hook is represented by what it does: the sequence of addresses
  on which it calls \<open>mark()\<close>, in call order (empty for the default hook of
  \<open>Gc_object\<close> and for \<open>Test\<close>, the single pointer \<open>mTest\<close> for \<open>Test2\<close>).
\<close>

type_synonym addr = nat

record Gc_object =
  mMarked :: bool
  refs :: "addr list"

text \<open>
  The memory holds the objects that are currently allocated: \<open>new\<close> adds an entry,
  \<open>delete\<close> removes it. It is a finite map, as every real memory is.
\<close>

type_synonym memory = "(addr, Gc_object) fmap"

text \<open>
  Two things can stop the program. Calling a member function through a pointer to an
  object that is not allocated is undefined behaviour in C++; the model stops there with
  \<open>Dangling\<close>. A failing \<open>assert\<close> aborts the program; the model stops with
  \<open>AssertionFailed\<close>.
\<close>

datatype fault = Dangling | AssertionFailed

type_synonym 'a outcome = "fault + 'a"

subsection \<open>\<open>Gc_object::mark\<close> and the children hook\<close>

text \<open>
  \<open>mark()\<close> and the hook call each other, and the recursion follows the reference graph,
  so it is not structural. Both are one function on a call descriptor: \<open>Mark x\<close> is the
  call \<open>x->mark()\<close>, and \<open>MarkEach ys\<close> is a sequence of calls \<open>y->mark()\<close> for the
  elements of \<open>ys\<close> in order (the body of a hook, or one of the loops of \<open>collect\<close>).
  A computation that does not return has the value \<open>None\<close>.
\<close>

datatype mark_call = Mark addr | MarkEach "addr list"

partial_function (option) mark_run :: "mark_call \<Rightarrow> memory \<Rightarrow> memory outcome option" where
  "mark_run c mem =
     (case c of
        Mark x \<Rightarrow>
          (case fmlookup mem x of
             None \<Rightarrow> Some (Inl Dangling)
           | Some ob \<Rightarrow>
               if \<not> mMarked ob
               then mark_run (MarkEach (refs ob)) (fmupd x (ob\<lparr>mMarked := True\<rparr>) mem)
               else Some (Inr mem))
      | MarkEach [] \<Rightarrow> Some (Inr mem)
      | MarkEach (y # ys) \<Rightarrow>
          Option.bind (mark_run (Mark y) mem)
            (\<lambda>r. case r of
                   Inl e \<Rightarrow> Some (Inl e)
                 | Inr mem' \<Rightarrow> mark_run (MarkEach ys) mem'))"

definition mark :: "addr \<Rightarrow> memory \<Rightarrow> memory outcome option" where
  "mark x mem = mark_run (Mark x) mem"

definition markChildren :: "addr \<Rightarrow> memory \<Rightarrow> memory outcome option" where
  "markChildren x mem =
     (case fmlookup mem x of
        None \<Rightarrow> Some (Inl Dangling)
      | Some ob \<Rightarrow> mark_run (MarkEach (refs ob)) mem)"

definition mark_each :: "addr list \<Rightarrow> memory \<Rightarrow> memory outcome option" where
  "mark_each ys mem = mark_run (MarkEach ys) mem"

section \<open>The collector\<close>

text \<open>
  \<open>mHeap\<close> and \<open>mRoots\<close> are \<open>std::set<Gc_object*>\<close>, \<open>mPinned\<close> is
  \<open>std::map<Gc_object*, unsigned int>\<close>: finite sets and a finite map, iterated in
  ascending order of the keys. \<open>unsigned int\<close> and \<open>int\<close> are 32 bits wide.
\<close>

record garbage_collector =
  mHeap :: "addr fset"
  mRoots :: "addr fset"
  mPinned :: "(addr, 32 word) fmap"

definition addRoot :: "addr \<Rightarrow> garbage_collector \<Rightarrow> garbage_collector" where
  "addRoot root gc = gc\<lparr>mRoots := finsert root (mRoots gc)\<rparr>"

definition removeRoot :: "addr \<Rightarrow> garbage_collector \<Rightarrow> garbage_collector" where
  "removeRoot root gc = gc\<lparr>mRoots := mRoots gc |-| {|root|}\<rparr>"

definition pin :: "addr \<Rightarrow> garbage_collector \<Rightarrow> garbage_collector" where
  "pin p gc =
     (case fmlookup (mPinned gc) p of
        None \<Rightarrow> gc\<lparr>mPinned := fmupd p 1 (mPinned gc)\<rparr>
      | Some n \<Rightarrow> gc\<lparr>mPinned := fmupd p (n + 1) (mPinned gc)\<rparr>)"

definition unpin :: "addr \<Rightarrow> garbage_collector \<Rightarrow> garbage_collector outcome" where
  "unpin p gc =
     (case fmlookup (mPinned gc) p of
        None \<Rightarrow> Inl AssertionFailed
      | Some n \<Rightarrow>
          if n - 1 = 0
          then Inr (gc\<lparr>mPinned := fmdrop p (mPinned gc)\<rparr>)
          else Inr (gc\<lparr>mPinned := fmupd p (n - 1) (mPinned gc)\<rparr>))"

definition addObject :: "addr \<Rightarrow> garbage_collector \<Rightarrow> garbage_collector" where
  "addObject p gc = gc\<lparr>mHeap := finsert p (mHeap gc)\<rparr>"

definition removeObject :: "addr \<Rightarrow> garbage_collector \<Rightarrow> garbage_collector" where
  "removeObject p gc = gc\<lparr>mHeap := mHeap gc |-| {|p|}\<rparr>"

text \<open>
  \<open>live()\<close> returns \<open>mHeap.size()\<close>, a \<open>size_t\<close>, through the return type \<open>int\<close>: the
  result is a 32-bit value, read as two's complement by \<open>sint\<close>.
\<close>

definition live :: "garbage_collector \<Rightarrow> 32 word" where
  "live gc = of_nat (fcard (mHeap gc))"

subsection \<open>Sweep\<close>

text \<open>
  A line of diagnostic output is the text before the number, the number, and the text
  after it.
\<close>

type_synonym line = "string \<times> nat \<times> string"

text \<open>
  The first loop of \<open>sweep\<close> visits the heap set in order. It clears the mark bit of a
  marked object and counts it, and appends an unmarked one to the vector \<open>erase\<close>.
\<close>

fun sweep_scan ::
  "addr list \<Rightarrow> memory \<Rightarrow> 32 word \<Rightarrow> 32 word \<Rightarrow> addr list \<Rightarrow>
   (memory \<times> 32 word \<times> 32 word \<times> addr list) outcome" where
  "sweep_scan [] mem live_n total_n erase = Inr (mem, live_n, total_n, erase)"
| "sweep_scan (p # ps) mem live_n total_n erase =
     (case fmlookup mem p of
        None \<Rightarrow> Inl Dangling
      | Some ob \<Rightarrow>
          if mMarked ob
          then sweep_scan ps (fmupd p (ob\<lparr>mMarked := False\<rparr>) mem) (live_n + 1) (total_n + 1) erase
          else sweep_scan ps mem live_n (total_n + 1) (erase @ [p]))"

text \<open>
  The second loop erases each queued object from the heap set and deletes it.
\<close>

fun sweep_erase :: "addr list \<Rightarrow> addr fset \<Rightarrow> memory \<Rightarrow> addr fset \<times> memory" where
  "sweep_erase [] heap mem = (heap, mem)"
| "sweep_erase (p # ps) heap mem = sweep_erase ps (heap |-| {|p|}) (fmdrop p mem)"

definition sweep ::
  "bool \<Rightarrow> garbage_collector \<Rightarrow> memory \<Rightarrow> (garbage_collector \<times> memory \<times> line list) outcome" where
  "sweep verbose gc mem =
     (case sweep_scan (sorted_list_of_fset (mHeap gc)) mem 0 0 [] of
        Inl e \<Rightarrow> Inl e
      | Inr (mem1, live_n, total_n, erase) \<Rightarrow>
          (let dead = (of_nat (length erase) :: 32 word);
               (heap', mem2) = sweep_erase erase (mHeap gc) mem1
           in Inr (gc\<lparr>mHeap := heap'\<rparr>, mem2,
                   if verbose
                   then [(''GC: '', unat live_n, '' objects live after sweep''),
                         (''GC: '', unat dead, '' objects dead after sweep'')]
                   else [])))"

subsection \<open>Collect\<close>

text \<open>
  The mark phase of \<open>collect\<close> is two loops: \<open>mark()\<close> on every element of \<open>mRoots\<close>,
  then on every key of \<open>mPinned\<close>. \<open>mark_phase\<close> takes the two iteration sequences as
  arguments; \<open>collect\<close> passes the ascending ones of the two containers.
\<close>

definition mark_phase :: "addr list \<Rightarrow> addr list \<Rightarrow> memory \<Rightarrow> memory outcome option" where
  "mark_phase rs ps mem =
     Option.bind (mark_each rs mem)
       (\<lambda>r. case r of
              Inl e \<Rightarrow> Some (Inl e)
            | Inr mem1 \<Rightarrow> mark_each ps mem1)"

text \<open>
  \<open>t_start\<close> and \<open>t_end\<close> are the values that \<open>collect\<close> computes from the steady clock
  for its variables \<open>start\<close> and \<open>end\<close>.
\<close>

definition collect ::
  "bool \<Rightarrow> 32 word \<Rightarrow> 32 word \<Rightarrow> garbage_collector \<Rightarrow> memory \<Rightarrow>
   (garbage_collector \<times> memory \<times> line list) outcome option" where
  "collect verbose t_start t_end gc mem =
     Option.bind
       (mark_phase (sorted_list_of_fset (mRoots gc))
                   (sorted_list_of_fset (fmdom (mPinned gc))) mem)
       (\<lambda>r. case r of
              Inl e \<Rightarrow> Some (Inl e)
            | Inr mem1 \<Rightarrow>
                (case sweep verbose gc mem1 of
                   Inl e \<Rightarrow> Some (Inl e)
                 | Inr (gc', mem2, swept) \<Rightarrow>
                     Some (Inr (gc', mem2,
                       (if verbose
                        then [(''Roots: '', fcard (mRoots gc), []),
                              (''Pinned: '', fcard (fmdom (mPinned gc)), []),
                              (''GC: '', fcard (mHeap gc), '' objects in heap'')]
                        else [])
                       @ swept
                       @ (if verbose
                          then [(''GC: '', unat (t_end - t_start), '' microseconds'')]
                          else [])))))"

section \<open>The reference graph\<close>

text \<open>
  The definitions from here on are not code of the collector. They name what the
  properties below speak about: the marked objects, the references, and what is reachable.
\<close>

definition marked :: "memory \<Rightarrow> addr set" where
  "marked mem = {x. \<exists>ob. fmlookup mem x = Some ob \<and> mMarked ob}"

definition children :: "memory \<Rightarrow> addr \<Rightarrow> addr set" where
  "children mem x = (case fmlookup mem x of None \<Rightarrow> {} | Some ob \<Rightarrow> set (refs ob))"

definition edges :: "memory \<Rightarrow> (addr \<times> addr) set" where
  "edges mem = {(x, y). y \<in> children mem x}"

text \<open>
  \<open>reachable mem X\<close> is the closure of \<open>X\<close> under the references: the elements of \<open>X\<close>
  and everything the hooks lead to from them, in any number of steps.
\<close>

definition reachable :: "memory \<Rightarrow> addr set \<Rightarrow> addr set" where
  "reachable mem X = (edges mem)\<^sup>* `` X"

text \<open>
  When some objects are marked already, \<open>mark()\<close> stops at them. What it reaches from
  \<open>X\<close> is then what a path of unmarked objects leads to.
\<close>

definition white_edges :: "memory \<Rightarrow> (addr \<times> addr) set" where
  "white_edges mem = {(x, y). (x, y) \<in> edges mem \<and> x \<notin> marked mem \<and> y \<notin> marked mem}"

definition white_reachable :: "memory \<Rightarrow> addr set \<Rightarrow> addr set" where
  "white_reachable mem X = (white_edges mem)\<^sup>* `` (X - marked mem)"

definition unmark :: "Gc_object \<Rightarrow> Gc_object" where
  "unmark ob = ob\<lparr>mMarked := False\<rparr>"

text \<open>Two memories hold the same objects with the same references; only mark bits differ.\<close>

definition same_graph :: "memory \<Rightarrow> memory \<Rightarrow> bool" where
  "same_graph mem mem' \<longleftrightarrow>
     (\<forall>x. map_option unmark (fmlookup mem' x) = map_option unmark (fmlookup mem x))"

fun targets :: "mark_call \<Rightarrow> addr set" where
  "targets (Mark x) = {x}"
| "targets (MarkEach ys) = set ys"

fun call_size :: "mark_call \<Rightarrow> nat" where
  "call_size (Mark x) = 0"
| "call_size (MarkEach ys) = Suc (length ys)"

definition unmarked_count :: "memory \<Rightarrow> nat" where
  "unmarked_count mem = card (fmdom' mem - marked mem)"

text \<open>The roots and the keys of the pin table: where the mark phase starts.\<close>

definition entry_points :: "garbage_collector \<Rightarrow> addr set" where
  "entry_points gc = fset (mRoots gc) \<union> fmdom' (mPinned gc)"

definition no_dangling :: "memory \<Rightarrow> addr set \<Rightarrow> bool" where
  "no_dangling mem X \<longleftrightarrow> X \<union> white_reachable mem X \<subseteq> fmdom' mem"

definition set_marks :: "addr set \<Rightarrow> memory \<Rightarrow> memory" where
  "set_marks S mem = fmmap_keys (\<lambda>x ob. ob\<lparr>mMarked := (x \<in> S)\<rparr>) mem"

text \<open>The memory with the mark bit cleared on the objects in \<open>S\<close>.\<close>

definition clear_marks :: "addr set \<Rightarrow> memory \<Rightarrow> memory" where
  "clear_marks S mem = fmmap_keys (\<lambda>x ob. if x \<in> S then unmark ob else ob) mem"

text \<open>
  The objects that carry a mark when the mark phase of \<open>collect\<close> is over: those marked
  before, and those that a path of unmarked objects connects to a root or a pinned object.
\<close>

definition marked_by_collect :: "garbage_collector \<Rightarrow> memory \<Rightarrow> addr set" where
  "marked_by_collect gc mem = marked mem \<union> white_reachable mem (entry_points gc)"

section \<open>Sequences of calls\<close>

text \<open>\<open>n\<close> calls \<open>pin(p)\<close> in a row, and \<open>n\<close> calls \<open>unpin(p)\<close> in a row.\<close>

fun pin_times :: "nat \<Rightarrow> addr \<Rightarrow> garbage_collector \<Rightarrow> garbage_collector" where
  "pin_times 0 p gc = gc"
| "pin_times (Suc n) p gc = pin_times n p (pin p gc)"

fun unpin_times :: "nat \<Rightarrow> addr \<Rightarrow> garbage_collector \<Rightarrow> garbage_collector outcome" where
  "unpin_times 0 p gc = Inr gc"
| "unpin_times (Suc n) p gc =
     (case unpin p gc of
        Inl e \<Rightarrow> Inl e
      | Inr gc' \<Rightarrow> unpin_times n p gc')"

section \<open>Properties of marking\<close>

lemma mark_run_Mark:
  "mark_run (Mark x) mem =
     (case fmlookup mem x of
        None \<Rightarrow> Some (Inl Dangling)
      | Some ob \<Rightarrow>
          if \<not> mMarked ob
          then mark_run (MarkEach (refs ob)) (fmupd x (ob\<lparr>mMarked := True\<rparr>) mem)
          else Some (Inr mem))"
  by (subst mark_run.simps) simp

lemma mark_run_Nil: "mark_run (MarkEach []) mem = Some (Inr mem)"
  by (subst mark_run.simps) simp

lemma mark_run_Cons:
  "mark_run (MarkEach (y # ys)) mem =
     Option.bind (mark_run (Mark y) mem)
       (\<lambda>r. case r of Inl e \<Rightarrow> Some (Inl e) | Inr mem' \<Rightarrow> mark_run (MarkEach ys) mem')"
  by (subst mark_run.simps) simp

lemma mark_run_Cons_Inr:
  "mark_run (MarkEach (y # ys)) mem = Some (Inr mem') \<longleftrightarrow>
     (\<exists>mem1. mark_run (Mark y) mem = Some (Inr mem1) \<and>
             mark_run (MarkEach ys) mem1 = Some (Inr mem'))"
proof (cases "mark_run (Mark y) mem")
  case None
  then show ?thesis by (simp add: mark_run_Cons)
next
  case (Some r)
  then show ?thesis by (cases r) (simp_all add: mark_run_Cons)
qed

lemma same_graph_refl: "same_graph mem mem"
  by (simp add: same_graph_def)

lemma same_graph_trans: "same_graph a b \<Longrightarrow> same_graph b c \<Longrightarrow> same_graph a c"
  by (simp add: same_graph_def)

lemma same_graph_mark:
  "fmlookup mem x = Some ob \<Longrightarrow> same_graph mem (fmupd x (ob\<lparr>mMarked := True\<rparr>) mem)"
  by (simp add: same_graph_def unmark_def)

lemma marked_mark:
  "fmlookup mem x = Some ob \<Longrightarrow> marked (fmupd x (ob\<lparr>mMarked := True\<rparr>) mem) = insert x (marked mem)"
  by (auto simp: marked_def)

lemma mark_run_frame_aux:
  assumes "mark_run c mem = Some r"
  shows "\<forall>mem'. r = Inr mem' \<longrightarrow> same_graph mem mem' \<and> marked mem \<subseteq> marked mem'"
proof (rule mark_run.raw_induct[where P = "\<lambda>c mem r. \<forall>mem'. r = Inr mem' \<longrightarrow>
          same_graph mem mem' \<and> marked mem \<subseteq> marked mem'", OF _ assms], goal_cases)
  case (1 f c mem r)
  show ?case
  proof (cases c)
    case (Mark x)
    show ?thesis
    proof (cases "fmlookup mem x")
      case None
      with 1(2) Mark show ?thesis by auto
    next
      case (Some ob)
      show ?thesis
      proof (cases "mMarked ob")
        case True
        with 1(2) Mark Some show ?thesis by (auto simp: same_graph_refl)
      next
        case False
        with 1(2) Mark Some
        have run: "f (MarkEach (refs ob)) (fmupd x (ob\<lparr>mMarked := True\<rparr>) mem) = Some r"
          by simp
        from 1(1)[OF run] same_graph_mark[OF Some] marked_mark[OF Some]
        show ?thesis by (auto intro: same_graph_trans)
      qed
    qed
  next
    case (MarkEach ys)
    show ?thesis
    proof (cases ys)
      case Nil
      with 1(2) MarkEach show ?thesis by (auto simp: same_graph_refl)
    next
      case (Cons y ys')
      with 1(2) MarkEach obtain r1 where
        r1: "f (Mark y) mem = Some r1" and
        rest: "(case r1 of Inl e \<Rightarrow> Some (Inl e) | Inr mem1 \<Rightarrow> f (MarkEach ys') mem1) = Some r"
        by (auto simp: bind_eq_Some_conv)
      show ?thesis
      proof (cases r1)
        case (Inl e)
        with rest show ?thesis by auto
      next
        case (Inr mem1)
        with rest have r2: "f (MarkEach ys') mem1 = Some r" by simp
        from 1(1)[OF r1] Inr have a: "same_graph mem mem1" "marked mem \<subseteq> marked mem1" by auto
        from 1(1)[OF r2] a show ?thesis by (auto intro: same_graph_trans)
      qed
    qed
  qed
qed

lemma mark_run_same_graph: "mark_run c mem = Some (Inr mem') \<Longrightarrow> same_graph mem mem'"
  using mark_run_frame_aux by blast

lemma mark_run_marked_mono: "mark_run c mem = Some (Inr mem') \<Longrightarrow> marked mem \<subseteq> marked mem'"
  using mark_run_frame_aux by blast

lemma same_graph_dom: "same_graph mem mem' \<Longrightarrow> fmdom' mem' = fmdom' mem"
proof -
  assume sg: "same_graph mem mem'"
  have "x \<in> fmdom' mem' \<longleftrightarrow> x \<in> fmdom' mem" for x
    using sg[unfolded same_graph_def, rule_format, of x]
    by (cases "fmlookup mem x"; cases "fmlookup mem' x") (auto simp: fmlookup_dom'_iff)
  then show ?thesis by blast
qed

lemma marked_subset_dom: "marked mem \<subseteq> fmdom' mem"
  by (auto simp: marked_def fmlookup_dom'_iff)

lemma unmarked_count_mark:
  assumes "fmlookup mem x = Some ob" and "\<not> mMarked ob"
  shows "unmarked_count (fmupd x (ob\<lparr>mMarked := True\<rparr>) mem) < unmarked_count mem"
proof -
  have x: "x \<in> fmdom' mem - marked mem"
    using assms by (auto simp: marked_def fmlookup_dom'_iff)
  have "fmdom' (fmupd x (ob\<lparr>mMarked := True\<rparr>) mem) - marked (fmupd x (ob\<lparr>mMarked := True\<rparr>) mem)
        = (fmdom' mem - marked mem) - {x}"
    using assms(1) x by (auto simp: marked_mark[OF assms(1)])
  moreover have "finite (fmdom' mem - marked mem)" by simp
  ultimately show ?thesis
    unfolding unmarked_count_def using x card_Diff1_less[of "fmdom' mem - marked mem" x]
    by simp
qed

lemma unmarked_count_mono:
  assumes "same_graph mem mem'" and "marked mem \<subseteq> marked mem'"
  shows "unmarked_count mem' \<le> unmarked_count mem"
  unfolding unmarked_count_def same_graph_dom[OF assms(1)]
  using assms(2) by (intro card_mono) auto

lemma mark_run_induct [case_names Mark Nil Cons]:
  assumes M: "\<And>x mem. (\<And>ob. fmlookup mem x = Some ob \<Longrightarrow> \<not> mMarked ob \<Longrightarrow>
                  Q (MarkEach (refs ob)) (fmupd x (ob\<lparr>mMarked := True\<rparr>) mem)) \<Longrightarrow> Q (Mark x) mem"
    and N: "\<And>mem. Q (MarkEach []) mem"
    and C: "\<And>y ys mem. Q (Mark y) mem \<Longrightarrow>
                  (\<And>mem'. mark_run (Mark y) mem = Some (Inr mem') \<Longrightarrow> Q (MarkEach ys) mem') \<Longrightarrow>
                  Q (MarkEach (y # ys)) mem"
  shows "Q c mem"
proof -
  have W: "wf (inv_image (less_than <*lex*> less_than)
              (\<lambda>p. (unmarked_count (snd p), call_size (fst p))))"
    by (intro wf_inv_image wf_lex_prod wf_less_than)
  have "Q (fst p) (snd p)" for p
  proof (induct p rule: wf_induct_rule[OF W])
    case (1 p)
    note less = 1
    have IH: "Q c' mem'"
      if "unmarked_count mem' < unmarked_count (snd p) \<or>
          (unmarked_count mem' = unmarked_count (snd p) \<and> call_size c' < call_size (fst p))"
      for c' mem'
      using less[of "(c', mem')"] that by auto
    show ?case
    proof (cases "fst p")
      case (Mark x)
      have "Q (Mark x) (snd p)"
        by (rule M, rule IH) (simp add: unmarked_count_mark)
      with Mark show ?thesis by simp
    next
      case (MarkEach ys)
      show ?thesis
      proof (cases ys)
        case Nil
        with MarkEach N show ?thesis by simp
      next
        case (Cons y ys')
        have a: "Q (Mark y) (snd p)"
          by (rule IH) (simp add: MarkEach)
        have b: "Q (MarkEach ys') mem'" if "mark_run (Mark y) (snd p) = Some (Inr mem')" for mem'
        proof (rule IH)
          from unmarked_count_mono[OF mark_run_same_graph[OF that] mark_run_marked_mono[OF that]]
          show "unmarked_count mem' < unmarked_count (snd p) \<or>
                (unmarked_count mem' = unmarked_count (snd p) \<and>
                 call_size (MarkEach ys') < call_size (fst p))"
            by (auto simp: MarkEach Cons)
        qed
        from C[OF a b] MarkEach Cons show ?thesis by simp
      qed
    qed
  qed
  from this[of "(c, mem)"] show ?thesis by simp
qed

lemma mark_run_terminates: "\<exists>r. mark_run c mem = Some r"
proof (induction c mem rule: mark_run_induct)
  case (Mark x mem)
  then show ?case
    by (subst mark_run_Mark) (auto split: option.splits)
next
  case (Nil mem)
  show ?case by (simp add: mark_run_Nil)
next
  case (Cons y ys mem)
  from Cons(1) obtain r where r: "mark_run (Mark y) mem = Some r" by blast
  show ?case
  proof (cases r)
    case (Inl e)
    with r show ?thesis by (simp add: mark_run_Cons)
  next
    case (Inr mem')
    with r Cons(2)[of mem'] show ?thesis by (simp add: mark_run_Cons)
  qed
qed

lemma same_graph_children: "same_graph mem mem' \<Longrightarrow> children mem' = children mem"
proof
  fix x
  assume sg: "same_graph mem mem'"
  show "children mem' x = children mem x"
    using sg[unfolded same_graph_def, rule_format, of x]
    by (cases "fmlookup mem x"; cases "fmlookup mem' x")
       (auto simp: children_def unmark_def dest: arg_cong[where f = refs])
qed

lemma same_graph_edges: "same_graph mem mem' \<Longrightarrow> edges mem' = edges mem"
  by (simp add: edges_def same_graph_children)

lemma white_edges_antimono:
  assumes "same_graph mem mem'" and "marked mem \<subseteq> marked mem'"
  shows "white_edges mem' \<subseteq> white_edges mem"
  using assms(2) by (auto simp: white_edges_def same_graph_edges[OF assms(1)])

lemma white_reachable_antimono:
  assumes "same_graph mem mem'" and "marked mem \<subseteq> marked mem'"
  shows "white_reachable mem' X \<subseteq> white_reachable mem X"
proof -
  have "(white_edges mem')\<^sup>* \<subseteq> (white_edges mem)\<^sup>*"
    by (rule rtrancl_mono[OF white_edges_antimono[OF assms]])
  moreover have "X - marked mem' \<subseteq> X - marked mem"
    using assms(2) by blast
  ultimately show ?thesis
    unfolding white_reachable_def by blast
qed

lemma white_reachable_Un:
  "white_reachable mem (A \<union> B) = white_reachable mem A \<union> white_reachable mem B"
  unfolding white_reachable_def by blast

lemma white_reachable_mono: "A \<subseteq> B \<Longrightarrow> white_reachable mem A \<subseteq> white_reachable mem B"
  unfolding white_reachable_def by blast

lemma white_reachable_self: "x \<notin> marked mem \<Longrightarrow> x \<in> white_reachable mem {x}"
  unfolding white_reachable_def by blast

lemma white_reachable_step:
  assumes "x \<notin> marked mem" and "Y \<subseteq> children mem x"
  shows "white_reachable mem Y \<subseteq> white_reachable mem {x}"
proof
  fix z
  assume "z \<in> white_reachable mem Y"
  then obtain y where y: "y \<in> Y" "y \<notin> marked mem" and yz: "(y, z) \<in> (white_edges mem)\<^sup>*"
    unfolding white_reachable_def by blast
  from y assms have "(x, y) \<in> white_edges mem"
    by (auto simp: white_edges_def edges_def)
  from this yz have "(x, z) \<in> (white_edges mem)\<^sup>*"
    by (rule converse_rtrancl_into_rtrancl)
  with assms(1) show "z \<in> white_reachable mem {x}"
    unfolding white_reachable_def by blast
qed

lemma children_lookup: "fmlookup mem x = Some ob \<Longrightarrow> children mem x = set (refs ob)"
  by (simp add: children_def)

lemma mark_run_marks_aux:
  "\<forall>mem'. mark_run c mem = Some (Inr mem') \<longrightarrow>
     targets c \<subseteq> marked mem' \<and>
     (\<forall>v \<in> marked mem' - marked mem. children mem v \<subseteq> marked mem') \<and>
     marked mem' \<subseteq> marked mem \<union> white_reachable mem (targets c)"
proof (induction c mem rule: mark_run_induct)
  case (Mark x mem)
  show ?case
  proof (intro allI impI)
    fix mem'
    assume run: "mark_run (Mark x) mem = Some (Inr mem')"
    then obtain ob where ob: "fmlookup mem x = Some ob"
      by (subst (asm) mark_run_Mark) (auto split: option.splits)
    show "targets (Mark x) \<subseteq> marked mem' \<and>
          (\<forall>v \<in> marked mem' - marked mem. children mem v \<subseteq> marked mem') \<and>
          marked mem' \<subseteq> marked mem \<union> white_reachable mem (targets (Mark x))"
    proof (cases "mMarked ob")
      case True
      with run ob have "mem' = mem"
        by (subst (asm) mark_run_Mark) simp
      with True ob show ?thesis by (auto simp: marked_def)
    next
      case False
      let ?mem1 = "fmupd x (ob\<lparr>mMarked := True\<rparr>) mem"
      from run ob False have run1: "mark_run (MarkEach (refs ob)) ?mem1 = Some (Inr mem')"
        by (subst (asm) mark_run_Mark) simp
      from Mark[OF ob False] run1
      have k: "set (refs ob) \<subseteq> marked mem'"
        and cl: "\<forall>v \<in> marked mem' - marked ?mem1. children ?mem1 v \<subseteq> marked mem'"
        and up: "marked mem' \<subseteq> marked ?mem1 \<union> white_reachable ?mem1 (set (refs ob))"
        by auto
      have m1: "marked ?mem1 = insert x (marked mem)" by (rule marked_mark[OF ob])
      have sg: "same_graph mem ?mem1" by (rule same_graph_mark[OF ob])
      have xw: "x \<notin> marked mem" using ob False by (simp add: marked_def)
      have xin: "x \<in> marked mem'"
        using mark_run_marked_mono[OF run1] m1 by blast
      have "white_reachable ?mem1 (set (refs ob)) \<subseteq> white_reachable mem (set (refs ob))"
        by (rule white_reachable_antimono[OF sg]) (simp add: m1 subset_insertI)
      also have "\<dots> \<subseteq> white_reachable mem {x}"
        by (rule white_reachable_step[OF xw]) (simp add: children_lookup[OF ob])
      finally have w: "white_reachable ?mem1 (set (refs ob)) \<subseteq> white_reachable mem {x}" .
      have c3: "marked mem' \<subseteq> marked mem \<union> white_reachable mem {x}"
        using up[unfolded m1] w white_reachable_self[OF xw] by blast
      have c2: "children mem v \<subseteq> marked mem'" if "v \<in> marked mem' - marked mem" for v
      proof (cases "v = x")
        case True
        with k ob show ?thesis by (simp add: children_lookup)
      next
        case False
        with that m1 have "v \<in> marked mem' - marked ?mem1" by simp
        with cl same_graph_children[OF sg] show ?thesis by simp
      qed
      from xin c2 c3 show ?thesis by simp
    qed
  qed
next
  case (Nil mem)
  show ?case by (simp add: mark_run_Nil)
next
  case (Cons y ys mem)
  show ?case
  proof (intro allI impI)
    fix mem'
    assume run: "mark_run (MarkEach (y # ys)) mem = Some (Inr mem')"
    then obtain mem1 where r1: "mark_run (Mark y) mem = Some (Inr mem1)"
      and r2: "mark_run (MarkEach ys) mem1 = Some (Inr mem')"
      unfolding mark_run_Cons_Inr by blast
    from Cons(1) r1
    have a1: "y \<in> marked mem1"
      and a2: "\<forall>v \<in> marked mem1 - marked mem. children mem v \<subseteq> marked mem1"
      and a3: "marked mem1 \<subseteq> marked mem \<union> white_reachable mem {y}"
      by auto
    from Cons(2)[OF r1] r2
    have b1: "set ys \<subseteq> marked mem'"
      and b2: "\<forall>v \<in> marked mem' - marked mem1. children mem1 v \<subseteq> marked mem'"
      and b3: "marked mem' \<subseteq> marked mem1 \<union> white_reachable mem1 (set ys)"
      by auto
    note sg = mark_run_same_graph[OF r1]
    note mono1 = mark_run_marked_mono[OF r1]
    note mono2 = mark_run_marked_mono[OF r2]
    have c1: "set (y # ys) \<subseteq> marked mem'"
      using a1 b1 mono2 by auto
    have c2: "children mem v \<subseteq> marked mem'" if "v \<in> marked mem' - marked mem" for v
    proof (cases "v \<in> marked mem1")
      case True
      with that a2 mono2 show ?thesis by blast
    next
      case False
      with that b2 same_graph_children[OF sg] show ?thesis by simp
    qed
    have "white_reachable mem1 (set ys) \<subseteq> white_reachable mem (set ys)"
      by (rule white_reachable_antimono[OF sg mono1])
    with a3 b3 have c3: "marked mem' \<subseteq> marked mem \<union> white_reachable mem (set (y # ys))"
      using white_reachable_Un[of mem "{y}" "set ys"] by auto
    from c1 c2 c3 show "targets (MarkEach (y # ys)) \<subseteq> marked mem' \<and>
          (\<forall>v \<in> marked mem' - marked mem. children mem v \<subseteq> marked mem') \<and>
          marked mem' \<subseteq> marked mem \<union> white_reachable mem (targets (MarkEach (y # ys)))"
      by simp
  qed
qed

lemma white_reachable_closed:
  assumes T: "X \<subseteq> M'" and cl: "\<forall>v \<in> M' - marked mem. children mem v \<subseteq> M'"
  shows "white_reachable mem X \<subseteq> M'"
proof
  fix z
  assume "z \<in> white_reachable mem X"
  then obtain s where s: "s \<in> X" "s \<notin> marked mem" and sz: "(s, z) \<in> (white_edges mem)\<^sup>*"
    unfolding white_reachable_def by blast
  from sz have "z \<in> M' - marked mem"
  proof (induction rule: rtrancl_induct)
    case base
    with s T show ?case by blast
  next
    case (step u v)
    from step(2) have "v \<in> children mem u" "v \<notin> marked mem"
      by (auto simp: white_edges_def edges_def)
    with step(3) cl show ?case by blast
  qed
  then show "z \<in> M'" by simp
qed

lemma mark_run_marked:
  assumes "mark_run c mem = Some (Inr mem')"
  shows "marked mem' = marked mem \<union> white_reachable mem (targets c)"
proof -
  from mark_run_marks_aux[of c mem] assms
  have c: "targets c \<subseteq> marked mem'"
    and cl: "\<forall>v \<in> marked mem' - marked mem. children mem v \<subseteq> marked mem'"
    and up: "marked mem' \<subseteq> marked mem \<union> white_reachable mem (targets c)"
    by auto
  from white_reachable_closed[OF c cl] mark_run_marked_mono[OF assms] up
  show ?thesis by blast
qed

lemma mark_run_Cons_Inl:
  "mark_run (MarkEach (y # ys)) mem = Some (Inl e) \<longleftrightarrow>
     mark_run (Mark y) mem = Some (Inl e) \<or>
     (\<exists>mem1. mark_run (Mark y) mem = Some (Inr mem1) \<and>
             mark_run (MarkEach ys) mem1 = Some (Inl e))"
proof (cases "mark_run (Mark y) mem")
  case None
  then show ?thesis by (simp add: mark_run_Cons)
next
  case (Some r)
  then show ?thesis by (cases r) (simp_all add: mark_run_Cons)
qed

lemma mark_run_fault: "\<forall>e. mark_run c mem = Some (Inl e) \<longrightarrow> e = Dangling"
proof (induction c mem rule: mark_run_induct)
  case (Mark x mem)
  show ?case
  proof (cases "fmlookup mem x")
    case None
    then show ?thesis by (simp add: mark_run_Mark)
  next
    case (Some ob)
    with Mark[OF Some] show ?thesis
      by (cases "mMarked ob") (simp_all add: mark_run_Mark)
  qed
next
  case (Nil mem)
  show ?case by (simp add: mark_run_Nil)
next
  case (Cons y ys mem)
  then show ?case unfolding mark_run_Cons_Inl by blast
qed

lemma mark_run_succeeds:
  "no_dangling mem (targets c) \<longrightarrow> (\<exists>mem'. mark_run c mem = Some (Inr mem'))"
proof (induction c mem rule: mark_run_induct)
  case (Mark x mem)
  show ?case
  proof
    assume nd: "no_dangling mem (targets (Mark x))"
    then have "x \<in> fmdom' mem" by (simp add: no_dangling_def)
    then obtain ob where ob: "fmlookup mem x = Some ob"
      by (auto simp: fmlookup_dom'_iff)
    show "\<exists>mem'. mark_run (Mark x) mem = Some (Inr mem')"
    proof (cases "mMarked ob")
      case True
      with ob show ?thesis by (simp add: mark_run_Mark)
    next
      case False
      let ?mem1 = "fmupd x (ob\<lparr>mMarked := True\<rparr>) mem"
      have m1: "marked ?mem1 = insert x (marked mem)" by (rule marked_mark[OF ob])
      have sg: "same_graph mem ?mem1" by (rule same_graph_mark[OF ob])
      have xw: "x \<notin> marked mem" using ob False by (simp add: marked_def)
      have "white_reachable ?mem1 (set (refs ob)) \<subseteq> white_reachable mem (set (refs ob))"
        by (rule white_reachable_antimono[OF sg]) (simp add: m1 subset_insertI)
      also have "\<dots> \<subseteq> white_reachable mem {x}"
        by (rule white_reachable_step[OF xw]) (simp add: children_lookup[OF ob])
      also have "\<dots> \<subseteq> fmdom' mem"
        using nd by (simp add: no_dangling_def)
      finally have w: "white_reachable ?mem1 (set (refs ob)) \<subseteq> fmdom' ?mem1"
        by auto
      have "y \<in> fmdom' ?mem1" if "y \<in> set (refs ob)" for y
      proof (cases "y \<in> marked ?mem1")
        case True
        with marked_subset_dom[of ?mem1] show ?thesis by blast
      next
        case False
        from white_reachable_self[OF False] white_reachable_mono[of "{y}" "set (refs ob)" ?mem1] that w
        show ?thesis by blast
      qed
      with w have "no_dangling ?mem1 (targets (MarkEach (refs ob)))"
        by (auto simp: no_dangling_def)
      with Mark[OF ob False] ob False show ?thesis
        by (simp add: mark_run_Mark)
    qed
  qed
next
  case (Nil mem)
  show ?case by (simp add: mark_run_Nil)
next
  case (Cons y ys mem)
  show ?case
  proof
    assume nd: "no_dangling mem (targets (MarkEach (y # ys)))"
    have "white_reachable mem {y} \<subseteq> white_reachable mem (set (y # ys))"
      by (rule white_reachable_mono) simp
    with nd have "no_dangling mem (targets (Mark y))"
      by (auto simp: no_dangling_def)
    with Cons(1) obtain mem1 where r1: "mark_run (Mark y) mem = Some (Inr mem1)" by blast
    note sg = mark_run_same_graph[OF r1]
    have "white_reachable mem1 (set ys) \<subseteq> white_reachable mem (set ys)"
      by (rule white_reachable_antimono[OF sg mark_run_marked_mono[OF r1]])
    also have "\<dots> \<subseteq> white_reachable mem (set (y # ys))"
      by (rule white_reachable_mono) auto
    finally have "no_dangling mem1 (targets (MarkEach ys))"
      using nd by (auto simp: no_dangling_def same_graph_dom[OF sg])
    with Cons(2)[OF r1] obtain mem' where "mark_run (MarkEach ys) mem1 = Some (Inr mem')"
      by blast
    with r1 show "\<exists>mem'. mark_run (MarkEach (y # ys)) mem = Some (Inr mem')"
      unfolding mark_run_Cons_Inr by blast
  qed
qed

lemma mark_run_Inr_no_dangling:
  assumes "mark_run c mem = Some (Inr mem')"
  shows "no_dangling mem (targets c)"
proof -
  from mark_run_marks_aux[of c mem] assms have "targets c \<subseteq> marked mem'" by blast
  moreover have "white_reachable mem (targets c) \<subseteq> marked mem'"
    using mark_run_marked[OF assms] by blast
  moreover have "marked mem' \<subseteq> fmdom' mem"
    using marked_subset_dom[of mem'] same_graph_dom[OF mark_run_same_graph[OF assms]] by simp
  ultimately show ?thesis by (auto simp: no_dangling_def)
qed

lemma unmark_eqD: "unmark b = unmark a \<Longrightarrow> b = a\<lparr>mMarked := mMarked b\<rparr>"
  by (cases a; cases b) (simp add: unmark_def)

lemma same_graph_set_marks:
  assumes "same_graph mem mem'"
  shows "mem' = set_marks (marked mem') mem"
proof (rule fmap_ext)
  fix x
  show "fmlookup mem' x = fmlookup (set_marks (marked mem') mem) x"
    using assms[unfolded same_graph_def, rule_format, of x]
    by (cases "fmlookup mem x"; cases "fmlookup mem' x")
       (auto simp: set_marks_def marked_def dest: unmark_eqD)
qed

text \<open>What a marking run does, in one equation.\<close>

lemma mark_run_eq:
  "mark_run c mem =
     Some (if no_dangling mem (targets c)
           then Inr (set_marks (marked mem \<union> white_reachable mem (targets c)) mem)
           else Inl Dangling)"
proof -
  from mark_run_terminates obtain r where r: "mark_run c mem = Some r" by blast
  show ?thesis
  proof (cases r)
    case (Inl e)
    with r mark_run_fault have "e = Dangling" by blast
    moreover have "\<not> no_dangling mem (targets c)"
      using mark_run_succeeds[of mem c] r Inl by auto
    ultimately show ?thesis using r Inl by simp
  next
    case (Inr mem')
    with r have run: "mark_run c mem = Some (Inr mem')" by simp
    from same_graph_set_marks[OF mark_run_same_graph[OF run]] mark_run_marked[OF run]
    have "mem' = set_marks (marked mem \<union> white_reachable mem (targets c)) mem" by simp
    with run mark_run_Inr_no_dangling[OF run] show ?thesis by simp
  qed
qed

lemma mark_run_append:
  "mark_run (MarkEach (xs @ ys)) mem =
     Option.bind (mark_run (MarkEach xs) mem)
       (\<lambda>r. case r of Inl e \<Rightarrow> Some (Inl e) | Inr mem' \<Rightarrow> mark_run (MarkEach ys) mem')"
proof (induction xs arbitrary: mem)
  case Nil
  show ?case by (simp add: mark_run_Nil)
next
  case (Cons x xs)
  show ?case
  proof (cases "mark_run (Mark x) mem")
    case None
    then show ?thesis by (simp add: mark_run_Cons)
  next
    case (Some r)
    then show ?thesis
      by (cases r) (simp_all add: mark_run_Cons Cons.IH)
  qed
qed

lemma mark_phase_eq: "mark_phase rs ps mem = mark_run (MarkEach (rs @ ps)) mem"
  unfolding mark_phase_def mark_each_def mark_run_append by (rule refl)

section \<open>Sweep\<close>

lemma distinct_sorted_list_of_fset: "distinct (sorted_list_of_fset S)"
  by (simp add: sorted_list_of_fset.rep_eq)

lemma clear_marks_empty: "clear_marks {} mem = mem"
  by (rule fmap_ext) (simp add: clear_marks_def option.map_ident)

lemma clear_marks_marked_step:
  assumes "fmlookup mem p = Some ob"
  shows "clear_marks S (fmupd p (ob\<lparr>mMarked := False\<rparr>) mem) = clear_marks (insert p S) mem"
  by (rule fmap_ext) (use assms in \<open>auto simp: clear_marks_def unmark_def\<close>)

lemma unmark_unmarked: "\<not> mMarked ob \<Longrightarrow> unmark ob = ob"
  by (cases ob) (simp add: unmark_def)

lemma clear_marks_unmarked_step:
  assumes "fmlookup mem p = Some ob" and "\<not> mMarked ob"
  shows "clear_marks S mem = clear_marks (insert p S) mem"
proof (rule fmap_ext)
  fix x
  show "fmlookup (clear_marks S mem) x = fmlookup (clear_marks (insert p S) mem) x"
  proof (cases "x = p")
    case True
    with assms show ?thesis by (simp add: clear_marks_def unmark_unmarked)
  next
    case False
    then show ?thesis by (simp add: clear_marks_def)
  qed
qed

lemma marked_clear_step:
  assumes "fmlookup mem p = Some ob"
  shows "marked (fmupd p (ob\<lparr>mMarked := False\<rparr>) mem) = marked mem - {p}"
  using assms by (auto simp: marked_def)

lemma sweep_scan_fault: "sweep_scan ps mem l t e = Inl f \<Longrightarrow> f = Dangling \<and> \<not> set ps \<subseteq> fmdom' mem"
proof (induction ps arbitrary: mem l t e)
  case Nil
  then show ?case by simp
next
  case (Cons p ps)
  show ?case
  proof (cases "fmlookup mem p")
    case None
    with Cons.prems show ?thesis by (auto simp: fmlookup_dom'_iff)
  next
    case (Some ob)
    show ?thesis
    proof (cases "mMarked ob")
      case True
      with Cons.prems Some
      have "sweep_scan ps (fmupd p (ob\<lparr>mMarked := False\<rparr>) mem) (l + 1) (t + 1) e = Inl f"
        by simp
      from Cons.IH[OF this] Some show ?thesis
        by (auto simp: fmlookup_dom'_iff)
    next
      case False
      with Cons.prems Some have "sweep_scan ps mem l (t + 1) (e @ [p]) = Inl f" by simp
      from Cons.IH[OF this] show ?thesis by auto
    qed
  qed
qed

lemma sweep_scan_spec:
  assumes "distinct ps" and "set ps \<subseteq> fmdom' mem"
  shows "\<exists>l' t'. sweep_scan ps mem l t e =
           Inr (clear_marks (set ps) mem, l', t', e @ filter (\<lambda>p. p \<notin> marked mem) ps)"
  using assms
proof (induction ps arbitrary: mem l t e)
  case Nil
  show ?case by (simp add: clear_marks_empty)
next
  case (Cons p ps)
  from Cons.prems obtain ob where ob: "fmlookup mem p = Some ob"
    by (auto simp: fmlookup_dom'_iff)
  from Cons.prems have d: "distinct ps" and pn: "p \<notin> set ps" by simp_all
  show ?case
  proof (cases "mMarked ob")
    case True
    let ?mem1 = "fmupd p (ob\<lparr>mMarked := False\<rparr>) mem"
    have sub: "set ps \<subseteq> fmdom' ?mem1" using Cons.prems by auto
    have f: "filter (\<lambda>q. q \<notin> marked ?mem1) ps = filter (\<lambda>q. q \<notin> marked mem) ps"
      using pn by (intro filter_cong refl) (auto simp: marked_clear_step[OF ob])
    have pm: "p \<in> marked mem" using ob True by (auto simp: marked_def)
    from Cons.IH[OF d sub, of "l + 1" "t + 1" e] ob True f pm
    show ?thesis by (simp add: clear_marks_marked_step[OF ob])
  next
    case False
    have sub: "set ps \<subseteq> fmdom' mem" using Cons.prems by auto
    have pm: "p \<notin> marked mem" using ob False by (auto simp: marked_def)
    from Cons.IH[OF d sub, of l "t + 1" "e @ [p]"] ob False pm
    show ?thesis by (simp add: clear_marks_unmarked_step[OF ob False, symmetric])
  qed
qed

lemma sweep_erase_spec:
  "sweep_erase ps heap mem = (heap |-| fset_of_list ps, fmdrop_set (set ps) mem)"
proof (induction ps arbitrary: heap mem)
  case Nil
  show ?case by simp
next
  case (Cons p ps)
  have "heap |-| {|p|} |-| fset_of_list ps = heap |-| finsert p (fset_of_list ps)"
    by auto
  then show ?case by (simp add: Cons.IH)
qed

text \<open>
  What \<open>sweep\<close> does: it faults on a heap entry that is not allocated; otherwise it keeps
  the marked heap objects with their mark bits cleared, and erases and deletes the others.
\<close>

lemma sweep_spec:
  "(fset (mHeap gc) \<subseteq> fmdom' mem \<longrightarrow>
      (\<exists>out. sweep verbose gc mem =
         Inr (gc\<lparr>mHeap := ffilter (\<lambda>x. x \<in> marked mem) (mHeap gc)\<rparr>,
              fmdrop_set (fset (mHeap gc) - marked mem) (clear_marks (fset (mHeap gc)) mem),
              out))) \<and>
   (\<not> fset (mHeap gc) \<subseteq> fmdom' mem \<longrightarrow> sweep verbose gc mem = Inl Dangling)"
proof (intro conjI impI)
  let ?ps = "sorted_list_of_fset (mHeap gc)"
  assume sub: "fset (mHeap gc) \<subseteq> fmdom' mem"
  then have "set ?ps \<subseteq> fmdom' mem" by simp
  from sweep_scan_spec[OF distinct_sorted_list_of_fset this, of 0 0 "[]"]
  obtain l' t' where scan: "sweep_scan ?ps mem 0 0 [] =
      Inr (clear_marks (fset (mHeap gc)) mem, l', t', filter (\<lambda>p. p \<notin> marked mem) ?ps)"
    by auto
  have h: "mHeap gc |-| ffilter (\<lambda>p. p \<notin> marked mem) (mHeap gc)
           = ffilter (\<lambda>x. x \<in> marked mem) (mHeap gc)"
    by auto
  have s: "{x. x |\<in>| mHeap gc \<and> x \<notin> marked mem} = fset (mHeap gc) - marked mem"
    by auto
  show "\<exists>out. sweep verbose gc mem =
         Inr (gc\<lparr>mHeap := ffilter (\<lambda>x. x \<in> marked mem) (mHeap gc)\<rparr>,
              fmdrop_set (fset (mHeap gc) - marked mem) (clear_marks (fset (mHeap gc)) mem),
              out)"
    unfolding sweep_def scan by (simp add: sweep_erase_spec h s Let_def)
next
  let ?ps = "sorted_list_of_fset (mHeap gc)"
  assume nsub: "\<not> fset (mHeap gc) \<subseteq> fmdom' mem"
  show "sweep verbose gc mem = Inl Dangling"
  proof (cases "sweep_scan ?ps mem 0 0 []")
    case (Inl f)
    with sweep_scan_fault[OF Inl] show ?thesis by (simp add: sweep_def)
  next
    case (Inr r)
    have "set ?ps \<subseteq> fmdom' mem \<or> \<not> set ?ps \<subseteq> fmdom' mem" by blast
    then show ?thesis
    proof
      assume "set ?ps \<subseteq> fmdom' mem"
      with nsub show ?thesis by simp
    next
      assume n: "\<not> set ?ps \<subseteq> fmdom' mem"
      from n obtain p where p: "p \<in> set ?ps" "p \<notin> fmdom' mem" by blast
      have ex: "\<exists>f. sweep_scan ps m l t e = Inl f"
        if "p \<in> set ps" "p \<notin> fmdom' m" for ps m l t e
        using that
      proof (induction ps arbitrary: m l t e)
        case Nil
        then show ?case by simp
      next
        case (Cons q qs)
        show ?case
        proof (cases "fmlookup m q")
          case None
          then show ?thesis by simp
        next
          case (Some ob)
          with Cons.prems have qp: "q \<noteq> p" by (auto simp: fmlookup_dom'_iff)
          with Cons.prems have pin: "p \<in> set qs" by simp
          show ?thesis
          proof (cases "mMarked ob")
            case True
            have "p \<notin> fmdom' (fmupd q (ob\<lparr>mMarked := False\<rparr>) m)"
              using Cons.prems(2) qp by simp
            from Cons.IH[OF pin this] Some True show ?thesis by simp
          next
            case False
            from Cons.IH[OF pin Cons.prems(2)] Some False show ?thesis by simp
          qed
        qed
      qed
      from ex[of ?ps mem 0 0 "[]"] p Inr show ?thesis by auto
    qed
  qed
qed

section \<open>The collection cycle\<close>

lemma fmdom'_set_marks: "fmdom' (set_marks S mem) = fmdom' mem"
  by (simp add: set_marks_def fmdom'_alt_def)

lemma marked_set_marks:
  assumes "S \<subseteq> fmdom' mem"
  shows "marked (set_marks S mem) = S"
proof
  show "marked (set_marks S mem) \<subseteq> S"
    by (auto simp: marked_def set_marks_def)
  show "S \<subseteq> marked (set_marks S mem)"
  proof
    fix x
    assume x: "x \<in> S"
    with assms have "x \<in> fmdom' mem" by blast
    then obtain ob where "fmlookup mem x = Some ob"
      by (auto simp: fmlookup_dom'_iff)
    with x show "x \<in> marked (set_marks S mem)"
      by (simp add: marked_def set_marks_def)
  qed
qed

lemma mark_phase_spec:
  "mark_phase rs ps mem =
     Some (if no_dangling mem (set rs \<union> set ps)
           then Inr (set_marks (marked mem \<union> white_reachable mem (set rs \<union> set ps)) mem)
           else Inl Dangling)"
  by (simp add: mark_phase_eq mark_run_eq)

lemma entry_points_lists:
  "fset (mRoots gc) \<union> fset (fmdom (mPinned gc)) = entry_points gc"
  by (simp add: entry_points_def fmdom'_alt_def)

lemma marked_by_collect_dom:
  "no_dangling mem (entry_points gc) \<Longrightarrow> marked_by_collect gc mem \<subseteq> fmdom' mem"
  using marked_subset_dom[of mem] by (auto simp: marked_by_collect_def no_dangling_def)

text \<open>
  What \<open>collect\<close> does: it always returns; it faults on a dangling pointer; otherwise the
  roots and the pin table are as before, the heap set keeps the objects that the mark
  phase has marked, these have their mark bits cleared, and the other heap objects are
  deleted.
\<close>

lemma collect_spec:
  "\<exists>out. collect verbose t_start t_end gc mem =
     Some (if no_dangling mem (entry_points gc) \<and> fset (mHeap gc) \<subseteq> fmdom' mem
           then Inr (gc\<lparr>mHeap := ffilter (\<lambda>x. x \<in> marked_by_collect gc mem) (mHeap gc)\<rparr>,
                     fmdrop_set (fset (mHeap gc) - marked_by_collect gc mem)
                       (clear_marks (fset (mHeap gc))
                          (set_marks (marked_by_collect gc mem) mem)),
                     out)
           else Inl Dangling)"
proof (cases "no_dangling mem (entry_points gc)")
  case False
  then show ?thesis
    by (simp add: collect_def mark_phase_spec entry_points_lists)
next
  case True
  let ?M = "marked_by_collect gc mem"
  let ?mem1 = "set_marks ?M mem"
  have mp: "mark_phase (sorted_list_of_fset (mRoots gc))
              (sorted_list_of_fset (fmdom (mPinned gc))) mem = Some (Inr ?mem1)"
    using True by (simp add: mark_phase_spec entry_points_lists marked_by_collect_def)
  have m1: "marked ?mem1 = ?M"
    by (rule marked_set_marks[OF marked_by_collect_dom[OF True]])
  have d1: "fmdom' ?mem1 = fmdom' mem" by (rule fmdom'_set_marks)
  show ?thesis
  proof (cases "fset (mHeap gc) \<subseteq> fmdom' mem")
    case False
    with sweep_spec[of gc ?mem1 verbose] d1
    have "sweep verbose gc ?mem1 = Inl Dangling" by simp
    with False True mp show ?thesis by (simp add: collect_def)
  next
    case sub: True
    with sweep_spec[of gc ?mem1 verbose] d1 m1
    obtain swept where "sweep verbose gc ?mem1 =
        Inr (gc\<lparr>mHeap := ffilter (\<lambda>x. x \<in> ?M) (mHeap gc)\<rparr>,
             fmdrop_set (fset (mHeap gc) - ?M) (clear_marks (fset (mHeap gc)) ?mem1),
             swept)"
      by auto
    with sub True mp show ?thesis by (simp add: collect_def)
  qed
qed

lemma collect_returns: "\<exists>r. collect verbose t_start t_end gc mem = Some r"
  using collect_spec[of verbose t_start t_end gc mem] by blast

lemma collect_Inr:
  assumes "collect verbose t_start t_end gc mem = Some (Inr (gc', mem', out))"
  shows "no_dangling mem (entry_points gc)" and "fset (mHeap gc) \<subseteq> fmdom' mem"
    and "gc' = gc\<lparr>mHeap := ffilter (\<lambda>x. x \<in> marked_by_collect gc mem) (mHeap gc)\<rparr>"
    and "mem' = fmdrop_set (fset (mHeap gc) - marked_by_collect gc mem)
                  (clear_marks (fset (mHeap gc)) (set_marks (marked_by_collect gc mem) mem))"
proof -
  from collect_spec[of verbose t_start t_end gc mem] assms
  have c: "no_dangling mem (entry_points gc) \<and> fset (mHeap gc) \<subseteq> fmdom' mem"
    by (auto split: if_splits)
  then show "no_dangling mem (entry_points gc)" and "fset (mHeap gc) \<subseteq> fmdom' mem"
    by simp_all
  from collect_spec[of verbose t_start t_end gc mem] assms c
  show "gc' = gc\<lparr>mHeap := ffilter (\<lambda>x. x \<in> marked_by_collect gc mem) (mHeap gc)\<rparr>"
    and "mem' = fmdrop_set (fset (mHeap gc) - marked_by_collect gc mem)
                  (clear_marks (fset (mHeap gc)) (set_marks (marked_by_collect gc mem) mem))"
    by auto
qed

lemma collect_succeeds:
  assumes "no_dangling mem (entry_points gc)" and "fset (mHeap gc) \<subseteq> fmdom' mem"
  shows "\<exists>gc' mem' out. collect verbose t_start t_end gc mem = Some (Inr (gc', mem', out))"
  using collect_spec[of verbose t_start t_end gc mem] assms by auto

lemma reachable_superset: "X \<subseteq> reachable mem X"
  by (auto simp: reachable_def)

lemma reachable_closed:
  assumes X: "X \<subseteq> D" and cl: "\<forall>x \<in> D. children mem x \<subseteq> D"
  shows "reachable mem X \<subseteq> D"
proof
  fix z
  assume "z \<in> reachable mem X"
  then obtain s where s: "s \<in> X" and sz: "(s, z) \<in> (edges mem)\<^sup>*"
    by (auto simp: reachable_def)
  from sz show "z \<in> D"
  proof (induction rule: rtrancl_induct)
    case base
    with s X show ?case by blast
  next
    case (step u v)
    then show ?case using cl by (auto simp: edges_def)
  qed
qed

section \<open>Marking: idempotence and termination\<close>

lemma mark_unfold:
  "mark x mem =
     (case fmlookup mem x of
        None \<Rightarrow> Some (Inl Dangling)
      | Some ob \<Rightarrow>
          if \<not> mMarked ob
          then markChildren x (fmupd x (ob\<lparr>mMarked := True\<rparr>) mem)
          else Some (Inr mem))"
  by (simp add: mark_def markChildren_def mark_run_Mark split: option.splits)

lemma no_dangling_closed:
  assumes X: "X \<subseteq> fmdom' mem" and cl: "\<forall>x \<in> fmdom' mem. children mem x \<subseteq> fmdom' mem"
  shows "no_dangling mem X"
proof -
  have "white_reachable mem X \<subseteq> fmdom' mem"
  proof (rule white_reachable_closed[OF X])
    show "\<forall>v \<in> fmdom' mem - marked mem. children mem v \<subseteq> fmdom' mem"
      using cl by blast
  qed
  with X show ?thesis by (simp add: no_dangling_def)
qed

text \<open>
  Claim C3. \<open>mark()\<close> is idempotent. On an object that is already marked it returns at
  once and leaves the memory as it is: the hook is not run, so no other object gets
  marked. And when a call \<open>x->mark()\<close> has returned, a second call returns the same
  memory: the set of marked objects after two calls is the one after one call, also when
  the call reached \<open>x\<close> again through a cycle of references.
\<close>

theorem mark_idempotent:
  "(\<forall>ob. fmlookup mem x = Some ob \<and> mMarked ob \<longrightarrow> mark x mem = Some (Inr mem)) \<and>
   (\<forall>mem'. mark x mem = Some (Inr mem') \<longrightarrow>
      mark x mem' = Some (Inr mem') \<and> marked mem' = marked mem \<union> white_reachable mem {x})"
proof (intro conjI allI impI)
  fix ob
  assume "fmlookup mem x = Some ob \<and> mMarked ob"
  then show "mark x mem = Some (Inr mem)"
    by (simp add: mark_def mark_run_Mark)
next
  fix mem'
  assume run: "mark x mem = Some (Inr mem')"
  then have r: "mark_run (Mark x) mem = Some (Inr mem')" by (simp add: mark_def)
  from mark_run_marks_aux[of "Mark x" mem] r have "x \<in> marked mem'" by simp
  then obtain ob where "fmlookup mem' x = Some ob" "mMarked ob"
    by (auto simp: marked_def)
  then show "mark x mem' = Some (Inr mem')"
    by (simp add: mark_def mark_run_Mark)
  from mark_run_marked[OF r] show "marked mem' = marked mem \<union> white_reachable mem {x}"
    by simp
qed

text \<open>
  Object 1 references object 2 and object 2 references object 1. The first call marks
  both; the second call changes nothing.
\<close>

theorem mark_idempotent_witness:
  "mark 1 (fmupd 1 \<lparr>mMarked = False, refs = [2]\<rparr>
            (fmupd 2 \<lparr>mMarked = False, refs = [1]\<rparr> fmempty))
     = Some (Inr (fmupd 2 \<lparr>mMarked = True, refs = [1]\<rparr>
                   (fmupd 1 \<lparr>mMarked = True, refs = [2]\<rparr>
                     (fmupd 2 \<lparr>mMarked = False, refs = [1]\<rparr> fmempty)))) \<and>
   mark 1 (fmupd 2 \<lparr>mMarked = True, refs = [1]\<rparr>
            (fmupd 1 \<lparr>mMarked = True, refs = [2]\<rparr>
              (fmupd 2 \<lparr>mMarked = False, refs = [1]\<rparr> fmempty)))
     = Some (Inr (fmupd 2 \<lparr>mMarked = True, refs = [1]\<rparr>
                   (fmupd 1 \<lparr>mMarked = True, refs = [2]\<rparr>
                     (fmupd 2 \<lparr>mMarked = False, refs = [1]\<rparr> fmempty))))"
proof -
  let ?mem = "fmupd 1 \<lparr>mMarked = False, refs = [2]\<rparr>
               (fmupd 2 \<lparr>mMarked = False, refs = [1]\<rparr> fmempty)"
  let ?mem' = "fmupd 2 \<lparr>mMarked = True, refs = [1]\<rparr>
                (fmupd 1 \<lparr>mMarked = True, refs = [2]\<rparr>
                  (fmupd 2 \<lparr>mMarked = False, refs = [1]\<rparr> fmempty))"
  have first: "mark 1 ?mem = Some (Inr ?mem')"
    by (simp add: mark_def mark_run_Mark mark_run_Nil mark_run_Cons)
  with mark_idempotent[of ?mem 1] show ?thesis by blast
qed

text \<open>
  Claim C4. \<open>mark()\<close> returns on every memory, cycles of references included: a marked
  object is not traversed again, and the memory is finite. It returns without a fault
  when no object that it reaches is a dangling pointer.
\<close>

theorem mark_terminates:
  "(\<exists>r. mark x mem = Some r) \<and>
   (no_dangling mem {x} \<longrightarrow> (\<exists>mem'. mark x mem = Some (Inr mem')))"
  using mark_run_terminates[of "Mark x" mem] mark_run_succeeds[of mem "Mark x"]
  by (simp add: mark_def)

text \<open>The two-object cycle: the call returns, with both objects marked.\<close>

theorem mark_terminates_witness:
  "no_dangling (fmupd 1 \<lparr>mMarked = False, refs = [2]\<rparr>
                 (fmupd 2 \<lparr>mMarked = False, refs = [1]\<rparr> fmempty)) {1} \<and>
   (\<exists>mem'. mark 1 (fmupd 1 \<lparr>mMarked = False, refs = [2]\<rparr>
                    (fmupd 2 \<lparr>mMarked = False, refs = [1]\<rparr> fmempty)) = Some (Inr mem'))"
proof -
  let ?mem = "fmupd 1 \<lparr>mMarked = False, refs = [2]\<rparr>
               (fmupd 2 \<lparr>mMarked = False, refs = [1]\<rparr> fmempty)"
  have nd: "no_dangling ?mem {1}"
    by (rule no_dangling_closed) (simp_all add: children_def)
  with mark_terminates[of 1 ?mem] show ?thesis by blast
qed

section \<open>Pinning\<close>

lemma fmupd_same: "fmlookup m p = Some c \<Longrightarrow> fmupd p c m = m"
  by (rule fmap_ext) auto

lemma unat_max_word32: "unat (- 1 :: 32 word) = 4294967295"
  by (simp add: unsigned_minus_1_eq_mask mask_eq_exp_minus_1)

lemma unat_of_nat32: "N < 2 ^ 32 \<Longrightarrow> unat (of_nat N :: 32 word) = N"
  by (simp add: unat_of_nat)

lemma pin_times_count:
  "fmlookup (mPinned gc) p = Some c \<Longrightarrow>
     pin_times n p gc = gc\<lparr>mPinned := fmupd p (c + of_nat n) (mPinned gc)\<rparr>"
proof (induction n arbitrary: gc c)
  case 0
  then show ?case by (simp add: fmupd_same)
next
  case (Suc n)
  have "fmlookup (mPinned (pin p gc)) p = Some (c + 1)"
    using Suc.prems by (simp add: pin_def)
  from Suc.IH[OF this] Suc.prems show ?case
    by (simp add: pin_def add.assoc)
qed

lemma pin_times_fresh:
  assumes "fmlookup (mPinned gc) p = None"
  shows "pin_times (Suc n) p gc = gc\<lparr>mPinned := fmupd p (of_nat (Suc n)) (mPinned gc)\<rparr>"
proof -
  have "fmlookup (mPinned (pin p gc)) p = Some 1"
    using assms by (simp add: pin_def)
  from pin_times_count[OF this, of n] assms show ?thesis
    by (simp add: pin_def)
qed

lemma unpin_times_Inl: "unpin_times n p gc = Inl e \<Longrightarrow> e = AssertionFailed"
proof (induction n arbitrary: gc)
  case 0
  then show ?case by simp
next
  case (Suc n)
  then show ?case
    by (auto simp: unpin_def split: option.splits if_splits sum.splits)
qed

lemma unpin_times_snoc:
  "unpin_times (Suc n) p gc =
     (case unpin_times n p gc of Inl e \<Rightarrow> Inl e | Inr gc' \<Rightarrow> unpin p gc')"
proof (induction n arbitrary: gc)
  case 0
  show ?case by (simp split: sum.splits)
next
  case (Suc n)
  show ?case
  proof (cases "unpin p gc")
    case (Inl e)
    then show ?thesis by simp
  next
    case (Inr gc1)
    with Suc.IH[of gc1] show ?thesis by simp
  qed
qed

text \<open>
  A count \<open>c\<close> stands \<open>unat c\<close> calls of \<open>unpin\<close> before the entry goes, and the count 0,
  which \<open>pin\<close> reaches by wrapping around, stands \<open>2 ^ 32\<close>.
\<close>

lemma unpin_times_count:
  "fmlookup (mPinned gc) p = Some c \<Longrightarrow>
   k < (if c = 0 then 2 ^ 32 else unat c) \<Longrightarrow>
     unpin_times k p gc = Inr (gc\<lparr>mPinned := fmupd p (c - of_nat k) (mPinned gc)\<rparr>)"
proof (induction k arbitrary: gc c)
  case 0
  then show ?case by (simp add: fmupd_same)
next
  case (Suc k)
  have c1: "c \<noteq> 1" using Suc.prems(2) by (auto split: if_splits)
  then have step: "unpin p gc = Inr (gc\<lparr>mPinned := fmupd p (c - 1) (mPinned gc)\<rparr>)"
    using Suc.prems(1) by (simp add: unpin_def)
  have l: "fmlookup (mPinned (gc\<lparr>mPinned := fmupd p (c - 1) (mPinned gc)\<rparr>)) p = Some (c - 1)"
    by simp
  have b: "k < (if c - 1 = 0 then 2 ^ 32 else unat (c - 1))"
  proof (cases "c = 0")
    case True
    with Suc.prems(2) show ?thesis by (simp add: unat_max_word32)
  next
    case False
    with Suc.prems(2) c1 show ?thesis by (simp add: unat_minus_one)
  qed
  from Suc.IH[OF l b] step show ?case
    by (simp add: diff_diff_eq)
qed

lemma unpin_times_all:
  assumes l: "fmlookup (mPinned gc) p = Some (of_nat N)" and N: "1 \<le> N" "N \<le> 2 ^ 32"
  shows "unpin_times (N - 1) p gc = Inr (gc\<lparr>mPinned := fmupd p 1 (mPinned gc)\<rparr>)"
    and "unpin_times N p gc = Inr (gc\<lparr>mPinned := fmdrop p (mPinned gc)\<rparr>)"
proof -
  let ?c = "of_nat N :: 32 word"
  have b: "N - 1 < (if ?c = 0 then 2 ^ 32 else unat ?c)"
  proof (cases "N = 2 ^ 32")
    case True
    then show ?thesis by simp
  next
    case False
    with N have lt: "N < 2 ^ 32" by simp
    then have u: "unat ?c = N" by (rule unat_of_nat32)
    with N have "?c \<noteq> 0" by (metis not_one_le_zero unat_0)
    with u N show ?thesis by simp
  qed
  have one: "?c - of_nat (N - 1) = 1"
  proof -
    from N have "N = Suc (N - 1)" by simp
    then have "?c = of_nat (N - 1) + 1" by (metis of_nat_Suc add.commute)
    then show ?thesis by simp
  qed
  from unpin_times_count[OF l b] one
  show first: "unpin_times (N - 1) p gc = Inr (gc\<lparr>mPinned := fmupd p 1 (mPinned gc)\<rparr>)"
    by simp
  from N have "N = Suc (N - 1)" by simp
  then have "unpin_times N p gc =
      (case unpin_times (N - 1) p gc of Inl e \<Rightarrow> Inl e | Inr gc' \<Rightarrow> unpin p gc')"
    using unpin_times_snoc[of "N - 1" p gc] by simp
  with first show "unpin_times N p gc = Inr (gc\<lparr>mPinned := fmdrop p (mPinned gc)\<rparr>)"
    by (simp add: unpin_def fmdrop_fmupd_same)
qed

text \<open>
  Claim C5, as the code has it. \<open>pin\<close> on an object with no entry creates the entry with
  count 1, and on a pinned object it adds 1 to the count, an \<open>unsigned int\<close>: modulo
  \<open>2 ^ 32\<close>. \<open>unpin\<close> subtracts 1 and removes the entry when the result is 0. For
  \<open>1 \<le> N \<le> 2 ^ 32\<close>, \<open>N\<close> calls of \<open>pin\<close> on an object with no entry followed by
  \<open>N\<close> calls of \<open>unpin\<close> give back the collector as it was, with no entry for the
  object, and followed by \<open>N - 1\<close> calls of \<open>unpin\<close> they leave the count 1.
\<close>

theorem pin_unpin_counting:
  "(fmlookup (mPinned gc) p = None \<longrightarrow> fmlookup (mPinned (pin p gc)) p = Some 1) \<and>
   (\<forall>n. fmlookup (mPinned gc) p = Some n \<longrightarrow>
      fmlookup (mPinned (pin p gc)) p = Some (n + 1) \<and>
      (\<exists>gc'. unpin p gc = Inr gc' \<and>
             fmlookup (mPinned gc') p = (if n - 1 = 0 then None else Some (n - 1)))) \<and>
   (fmlookup (mPinned gc) p = None \<and> 1 \<le> N \<and> N \<le> 2 ^ 32 \<longrightarrow>
      unpin_times N p (pin_times N p gc) = Inr gc \<and>
      (\<exists>gc'. unpin_times (N - 1) p (pin_times N p gc) = Inr gc' \<and>
             fmlookup (mPinned gc') p = Some 1))"
proof (intro conjI allI impI)
  assume "fmlookup (mPinned gc) p = None"
  then show "fmlookup (mPinned (pin p gc)) p = Some 1" by (simp add: pin_def)
next
  fix n
  assume "fmlookup (mPinned gc) p = Some n"
  then show "fmlookup (mPinned (pin p gc)) p = Some (n + 1)" by (simp add: pin_def)
next
  fix n
  assume "fmlookup (mPinned gc) p = Some n"
  then show "\<exists>gc'. unpin p gc = Inr gc' \<and>
             fmlookup (mPinned gc') p = (if n - 1 = 0 then None else Some (n - 1))"
    by (simp add: unpin_def)
next
  assume a: "fmlookup (mPinned gc) p = None \<and> 1 \<le> N \<and> N \<le> 2 ^ 32"
  then obtain M where M: "N = Suc M" by (cases N) auto
  let ?g = "gc\<lparr>mPinned := fmupd p (of_nat N) (mPinned gc)\<rparr>"
  from a M have pins: "pin_times N p gc = ?g"
    using pin_times_fresh[of gc p M] by simp
  have l: "fmlookup (mPinned ?g) p = Some (of_nat N)" by simp
  from a have "p \<notin> fmdom' (mPinned gc)" by (simp add: fmdom'_notI)
  then have idle: "fmdrop p (mPinned gc) = mPinned gc" by (rule fmdrop_idle')
  from unpin_times_all(2)[OF l] a pins idle
  show "unpin_times N p (pin_times N p gc) = Inr gc"
    by (simp add: fmdrop_fmupd_same)
  from unpin_times_all(1)[OF l] a pins
  show "\<exists>gc'. unpin_times (N - 1) p (pin_times N p gc) = Inr gc' \<and>
             fmlookup (mPinned gc') p = Some 1"
    by simp
qed

text \<open>Three calls of \<open>pin\<close>, then three or two calls of \<open>unpin\<close>.\<close>

theorem pin_unpin_counting_witness:
  "unpin_times 3 7 (pin_times 3 7 \<lparr>mHeap = {|7|}, mRoots = {||}, mPinned = fmempty\<rparr>)
     = Inr \<lparr>mHeap = {|7|}, mRoots = {||}, mPinned = fmempty\<rparr> \<and>
   (\<exists>gc'. unpin_times (3 - 1) 7 (pin_times 3 7 \<lparr>mHeap = {|7|}, mRoots = {||}, mPinned = fmempty\<rparr>)
             = Inr gc' \<and> fmlookup (mPinned gc') 7 = Some 1)"
  using pin_unpin_counting[of "\<lparr>mHeap = {|7|}, mRoots = {||}, mPinned = fmempty\<rparr>" 7 3]
  by simp

text \<open>
  The claim as the specification states it, for every \<open>N \<ge> 1\<close>, fails on the code at
  \<open>N = 2 ^ 32 + 1\<close>: the count has wrapped around to 1, the first \<open>unpin\<close> removes the
  entry, and the second one fails its assertion.
\<close>

theorem pin_unpin_counting_counterexample:
  "unpin_times (2 ^ 32 + 1) 7
     (pin_times (2 ^ 32 + 1) 7 \<lparr>mHeap = {|7|}, mRoots = {||}, mPinned = fmempty\<rparr>)
   = Inl AssertionFailed"
proof -
  let ?gc = "\<lparr>mHeap = {|7|}, mRoots = {||}, mPinned = fmempty\<rparr>"
  have n: "(2 ^ 32 + 1 :: nat) = Suc (2 ^ 32)" by simp
  have w: "(of_nat (Suc (2 ^ 32)) :: 32 word) = 1" by simp
  have "pin_times (Suc (2 ^ 32)) 7 ?gc = ?gc\<lparr>mPinned := fmupd 7 (of_nat (Suc (2 ^ 32))) (mPinned ?gc)\<rparr>"
    by (rule pin_times_fresh) simp
  then have pins: "pin_times (2 ^ 32 + 1) 7 ?gc = ?gc\<lparr>mPinned := fmupd 7 1 fmempty\<rparr>"
    unfolding n w by simp
  have two: "unpin_times (Suc (Suc 0)) 7 (?gc\<lparr>mPinned := fmupd 7 1 fmempty\<rparr>) = Inl AssertionFailed"
    by (simp add: unpin_def)
  have rest: "unpin_times (k + j) p g = Inl AssertionFailed"
    if "unpin_times k p g = Inl AssertionFailed" for k j p g
    using that
  proof (induction k arbitrary: g)
    case 0
    then show ?case by simp
  next
    case (Suc k)
    then show ?case by (cases "unpin p g") auto
  qed
  have "(2 ^ 32 + 1 :: nat) = Suc (Suc 0) + (2 ^ 32 - 1)" by simp
  then show ?thesis
    unfolding pins using rest[OF two, of "2 ^ 32 - 1"] by simp
qed

text \<open>
  Claim C6. \<open>unpin\<close> on an object with no entry in the pin table fails the assertion:
  the program stops, and there is no collector state afterwards. \<open>unpin\<close> succeeds only
  on an object that has an entry.
\<close>

theorem unpin_without_pin_asserts:
  "(fmlookup (mPinned gc) p = None \<longrightarrow> unpin p gc = Inl AssertionFailed) \<and>
   (\<forall>gc'. unpin p gc = Inr gc' \<longrightarrow> (\<exists>n. fmlookup (mPinned gc) p = Some n))"
  by (auto simp: unpin_def split: option.splits)

theorem unpin_without_pin_asserts_witness:
  "fmlookup (mPinned \<lparr>mHeap = {|7|}, mRoots = {||}, mPinned = fmempty\<rparr>) 7 = None \<and>
   unpin 7 \<lparr>mHeap = {|7|}, mRoots = {||}, mPinned = fmempty\<rparr> = Inl AssertionFailed"
  using unpin_without_pin_asserts[of "\<lparr>mHeap = {|7|}, mRoots = {||}, mPinned = fmempty\<rparr>" 7]
  by simp

section \<open>Evaluating a cycle on a given state\<close>

lemma sorted_list_of_fset_empty: "sorted_list_of_fset {||} = []"
  by (simp add: sorted_list_of_fset.rep_eq)

lemma sorted_list_of_fset_finsert:
  "a |\<notin>| S \<Longrightarrow> sorted_list_of_fset (finsert a S) = insort a (sorted_list_of_fset S)"
  by (simp add: sorted_list_of_fset.rep_eq)

lemmas collect_eval =
  collect_def mark_phase_def mark_each_def mark_run_Mark mark_run_Nil mark_run_Cons sweep_def
  sorted_list_of_fset_empty sorted_list_of_fset_finsert fmdrop_fmupd
  fcard_finsert_if fcard_fempty

section \<open>What a cycle leaves unchanged\<close>

lemma sweep_quiet: "sweep False gc mem = Inr (gc', mem', out) \<Longrightarrow> out = []"
  by (auto simp: sweep_def Let_def split: sum.splits prod.splits)

lemma collect_quiet:
  assumes "collect False t_start t_end gc mem = Some (Inr (gc', mem', out))"
  shows "out = []"
proof -
  obtain r where r: "mark_phase (sorted_list_of_fset (mRoots gc))
                       (sorted_list_of_fset (fmdom (mPinned gc))) mem = Some r"
    by (simp add: mark_phase_spec)
  show ?thesis
  proof (cases r)
    case (Inl e)
    with r assms show ?thesis by (simp add: collect_def)
  next
    case (Inr mem1)
    show ?thesis
    proof (cases "sweep False gc mem1")
      case (Inl e)
      with r Inr assms show ?thesis by (simp add: collect_def)
    next
      case sw: (Inr t)
      obtain a b c where t: "t = (a, b, c)" by (cases t)
      with r Inr sw assms have "out = c" by (simp add: collect_def)
      with sw t sweep_quiet[of gc mem1 a b c] show ?thesis by simp
    qed
  qed
qed

text \<open>
  Claim C10. \<open>collect\<close> always returns, and when it returns without a fault the root set
  and the pin table, with every count, are what they were before the call.
\<close>

theorem collect_keeps_roots_and_pins:
  "(\<exists>r. collect verbose t_start t_end gc mem = Some r) \<and>
   (\<forall>gc' mem' out. collect verbose t_start t_end gc mem = Some (Inr (gc', mem', out)) \<longrightarrow>
      mRoots gc' = mRoots gc \<and> mPinned gc' = mPinned gc)"
proof (intro conjI allI impI)
  show "\<exists>r. collect verbose t_start t_end gc mem = Some r" by (rule collect_returns)
next
  fix gc' mem' out
  assume "collect verbose t_start t_end gc mem = Some (Inr (gc', mem', out))"
  from collect_Inr(3)[OF this] show "mRoots gc' = mRoots gc" and "mPinned gc' = mPinned gc"
    by simp_all
qed

text \<open>
  Object 1 is a root and references object 2, object 3 is pinned twice, object 4 is
  garbage. After the cycle the heap has lost object 4; roots and pins are as before.
\<close>

theorem collect_keeps_roots_and_pins_witness:
  "collect False 0 0
     \<lparr>mHeap = {|1, 2, 3, 4|}, mRoots = {|1|}, mPinned = fmupd 3 2 fmempty\<rparr>
     (fmupd 1 \<lparr>mMarked = False, refs = [2]\<rparr>
       (fmupd 2 \<lparr>mMarked = False, refs = []\<rparr>
         (fmupd 3 \<lparr>mMarked = False, refs = []\<rparr>
           (fmupd 4 \<lparr>mMarked = False, refs = [1]\<rparr> fmempty))))
   = Some (Inr (\<lparr>mHeap = {|1, 2, 3|}, mRoots = {|1|}, mPinned = fmupd 3 2 fmempty\<rparr>,
                fmupd 1 \<lparr>mMarked = False, refs = [2]\<rparr>
                  (fmupd 2 \<lparr>mMarked = False, refs = []\<rparr>
                    (fmupd 3 \<lparr>mMarked = False, refs = []\<rparr> fmempty)),
                [])) \<and>
   mRoots \<lparr>mHeap = {|1, 2, 3|}, mRoots = {|1|}, mPinned = fmupd 3 2 fmempty\<rparr>
     = mRoots \<lparr>mHeap = {|1, 2, 3, 4|}, mRoots = {|1|}, mPinned = fmupd 3 2 fmempty\<rparr> \<and>
   mPinned \<lparr>mHeap = {|1, 2, 3|}, mRoots = {|1|}, mPinned = fmupd 3 2 fmempty\<rparr>
     = mPinned \<lparr>mHeap = {|1, 2, 3, 4|}, mRoots = {|1|}, mPinned = fmupd 3 2 fmempty\<rparr>"
proof -
  let ?gc = "\<lparr>mHeap = {|1, 2, 3, 4|}, mRoots = {|1|}, mPinned = fmupd 3 2 fmempty\<rparr>"
  let ?mem = "fmupd 1 \<lparr>mMarked = False, refs = [2]\<rparr>
       (fmupd 2 \<lparr>mMarked = False, refs = []\<rparr>
         (fmupd 3 \<lparr>mMarked = False, refs = []\<rparr>
           (fmupd 4 \<lparr>mMarked = False, refs = [1]\<rparr> fmempty)))"
  let ?gc' = "\<lparr>mHeap = {|1, 2, 3|}, mRoots = {|1|}, mPinned = fmupd 3 2 fmempty\<rparr>"
  let ?mem' = "fmupd 1 \<lparr>mMarked = False, refs = [2]\<rparr>
                  (fmupd 2 \<lparr>mMarked = False, refs = []\<rparr>
                    (fmupd 3 \<lparr>mMarked = False, refs = []\<rparr> fmempty))"
  have run: "collect False 0 0 ?gc ?mem = Some (Inr (?gc', ?mem', []))"
    apply (simp add: collect_eval)
    apply (intro conjI fmap_ext)
     apply auto
    done
  from collect_keeps_roots_and_pins[of False 0 0 ?gc ?mem] run show ?thesis
    by blast
qed

section \<open>Mark bits after a cycle\<close>


lemma collect_survivor_lookup:
  assumes "collect verbose t_start t_end gc mem = Some (Inr (gc', mem', out))"
    and "x |\<in>| mHeap gc'"
  shows "\<exists>ob. fmlookup mem x = Some ob \<and> fmlookup mem' x = Some (unmark ob)"
proof -
  note c = collect_Inr[OF assms(1)]
  from assms(2) c(3) have x: "x |\<in>| mHeap gc" "x \<in> marked_by_collect gc mem" by simp_all
  with c(2) have "x \<in> fmdom' mem" by blast
  then obtain ob where ob: "fmlookup mem x = Some ob" by (auto simp: fmlookup_dom'_iff)
  with x c(4) have "fmlookup mem' x = Some (unmark ob)"
    by (simp add: clear_marks_def set_marks_def unmark_def)
  with ob show ?thesis by simp
qed





section \<open>The verbose flag\<close>

text \<open>
  Claim C9. The collector and the memory after \<open>collect(true)\<close> are those after
  \<open>collect(false)\<close>, fault or not, whatever the clock says; without the flag nothing is
  printed.
\<close>

theorem collect_verbose_only_prints:
  "map_option (map_sum id (\<lambda>(gc', mem', out). (gc', mem')))
     (collect True t_start t_end gc mem)
   = map_option (map_sum id (\<lambda>(gc', mem', out). (gc', mem')))
       (collect False t_start' t_end' gc mem) \<and>
   (\<forall>gc' mem' out. collect False t_start' t_end' gc mem = Some (Inr (gc', mem', out)) \<longrightarrow>
      out = [])"
proof (intro conjI allI impI)
  from collect_spec[of True t_start t_end gc mem] collect_spec[of False t_start' t_end' gc mem]
  show "map_option (map_sum id (\<lambda>(gc', mem', out). (gc', mem')))
          (collect True t_start t_end gc mem)
        = map_option (map_sum id (\<lambda>(gc', mem', out). (gc', mem')))
            (collect False t_start' t_end' gc mem)"
    by auto
next
  fix gc' mem' out
  assume "collect False t_start' t_end' gc mem = Some (Inr (gc', mem', out))"
  then show "out = []" by (rule collect_quiet)
qed

text \<open>
  The same cycle with and without the flag: the six lines of output are the only
  difference.
\<close>

theorem collect_verbose_only_prints_witness:
  "collect True 5 7
     \<lparr>mHeap = {|1, 2, 3|}, mRoots = {|1|}, mPinned = fmempty\<rparr>
     (fmupd 1 \<lparr>mMarked = False, refs = [2]\<rparr>
       (fmupd 2 \<lparr>mMarked = False, refs = []\<rparr>
         (fmupd 3 \<lparr>mMarked = False, refs = []\<rparr> fmempty)))
   = Some (Inr (\<lparr>mHeap = {|1, 2|}, mRoots = {|1|}, mPinned = fmempty\<rparr>,
                fmupd 1 \<lparr>mMarked = False, refs = [2]\<rparr>
                  (fmupd 2 \<lparr>mMarked = False, refs = []\<rparr> fmempty),
                [(''Roots: '', 1, []), (''Pinned: '', 0, []),
                 (''GC: '', 3, '' objects in heap''),
                 (''GC: '', 2, '' objects live after sweep''),
                 (''GC: '', 1, '' objects dead after sweep''),
                 (''GC: '', 2, '' microseconds'')])) \<and>
   collect False 0 0
     \<lparr>mHeap = {|1, 2, 3|}, mRoots = {|1|}, mPinned = fmempty\<rparr>
     (fmupd 1 \<lparr>mMarked = False, refs = [2]\<rparr>
       (fmupd 2 \<lparr>mMarked = False, refs = []\<rparr>
         (fmupd 3 \<lparr>mMarked = False, refs = []\<rparr> fmempty)))
   = Some (Inr (\<lparr>mHeap = {|1, 2|}, mRoots = {|1|}, mPinned = fmempty\<rparr>,
                fmupd 1 \<lparr>mMarked = False, refs = [2]\<rparr>
                  (fmupd 2 \<lparr>mMarked = False, refs = []\<rparr> fmempty),
                []))"
proof -
  let ?gc = "\<lparr>mHeap = {|1, 2, 3|}, mRoots = {|1|}, mPinned = fmempty\<rparr>"
  let ?mem = "fmupd 1 \<lparr>mMarked = False, refs = [2]\<rparr>
       (fmupd 2 \<lparr>mMarked = False, refs = []\<rparr>
         (fmupd 3 \<lparr>mMarked = False, refs = []\<rparr> fmempty))"
  let ?gc' = "\<lparr>mHeap = {|1, 2|}, mRoots = {|1|}, mPinned = fmempty\<rparr>"
  let ?mem' = "fmupd 1 \<lparr>mMarked = False, refs = [2]\<rparr>
                  (fmupd 2 \<lparr>mMarked = False, refs = []\<rparr> fmempty)"
  let ?out = "[(''Roots: '', 1, []), (''Pinned: '', 0, []),
                 (''GC: '', 3, '' objects in heap''),
                 (''GC: '', 2, '' objects live after sweep''),
                 (''GC: '', 1, '' objects dead after sweep''),
                 (''GC: '', 2, '' microseconds'')]"
  have loud: "collect True 5 7 ?gc ?mem = Some (Inr (?gc', ?mem', ?out))"
    apply (simp add: collect_eval)
    apply (intro conjI fmap_ext)
     apply auto
    done
  from collect_verbose_only_prints[of 5 7 ?gc ?mem 0 0] loud
  have "map_option (map_sum id (\<lambda>(gc', mem', out). (gc', mem')))
          (collect False 0 0 ?gc ?mem) = Some (Inr (?gc', ?mem'))"
    by simp
  then obtain out where "collect False 0 0 ?gc ?mem = Some (Inr (?gc', ?mem', out))"
    by (cases "collect False 0 0 ?gc ?mem") (auto simp: map_sum_def split: sum.splits)
  with collect_verbose_only_prints[of 5 7 ?gc ?mem 0 0] loud show ?thesis
    by auto
qed

section \<open>What survives a cycle\<close>

lemma white_reachable_subset: "white_reachable mem X \<subseteq> reachable mem X"
proof -
  have "white_edges mem \<subseteq> edges mem" by (auto simp: white_edges_def)
  then have "(white_edges mem)\<^sup>* \<subseteq> (edges mem)\<^sup>*" by (rule rtrancl_mono)
  then show ?thesis unfolding white_reachable_def reachable_def by blast
qed

lemma reachable_step: "x \<in> reachable mem X \<Longrightarrow> (x, y) \<in> edges mem \<Longrightarrow> y \<in> reachable mem X"
  unfolding reachable_def by (blast intro: rtrancl_into_rtrancl)

lemma white_reachable_clean:
  assumes "marked mem \<inter> reachable mem X = {}"
  shows "white_reachable mem X = reachable mem X"
proof
  show "white_reachable mem X \<subseteq> reachable mem X" by (rule white_reachable_subset)
  show "reachable mem X \<subseteq> white_reachable mem X"
  proof
    fix z
    assume "z \<in> reachable mem X"
    then obtain s where s: "s \<in> X" and sz: "(s, z) \<in> (edges mem)\<^sup>*"
      by (auto simp: reachable_def)
    from s have sr: "s \<in> reachable mem X" using reachable_superset by blast
    from sz have "(s, z) \<in> (white_edges mem)\<^sup>* \<and> z \<in> reachable mem X"
    proof (induction rule: rtrancl_induct)
      case base
      with sr show ?case by simp
    next
      case (step u v)
      then have v: "v \<in> reachable mem X" using reachable_step by blast
      with step assms have "(u, v) \<in> white_edges mem"
        by (auto simp: white_edges_def)
      with step v show ?case by (auto intro: rtrancl_into_rtrancl)
    qed
    moreover from sr assms have "s \<notin> marked mem" by blast
    ultimately show "z \<in> white_reachable mem X"
      using s unfolding white_reachable_def by blast
  qed
qed

lemma no_dangling_clean:
  assumes "marked mem \<inter> reachable mem X = {}" and "reachable mem X \<subseteq> fmdom' mem"
  shows "no_dangling mem X"
  using assms reachable_superset[of X mem]
  by (auto simp: no_dangling_def white_reachable_clean)

text \<open>
  A cycle that starts with no mark on a heap object or on an object reachable from a root
  or a pinned object, and with these objects allocated.
\<close>

lemma collect_clean:
  assumes clean: "marked mem \<inter> (fset (mHeap gc) \<union> reachable mem (entry_points gc)) = {}"
    and alloc: "fset (mHeap gc) \<union> reachable mem (entry_points gc) \<subseteq> fmdom' mem"
  shows "\<exists>gc' mem' out.
           collect verbose t_start t_end gc mem = Some (Inr (gc', mem', out)) \<and>
           fset (mHeap gc') = fset (mHeap gc) \<inter> reachable mem (entry_points gc) \<and>
           (\<forall>x. x |\<in>| mHeap gc' \<longrightarrow> fmlookup mem' x = fmlookup mem x) \<and>
           (\<forall>x. x |\<in>| mHeap gc \<and> x |\<notin>| mHeap gc' \<longrightarrow> fmlookup mem' x = None)"
proof -
  let ?R = "reachable mem (entry_points gc)"
  from clean have c1: "marked mem \<inter> ?R = {}" by blast
  from alloc have a1: "?R \<subseteq> fmdom' mem" and a2: "fset (mHeap gc) \<subseteq> fmdom' mem" by simp_all
  have M: "marked_by_collect gc mem = marked mem \<union> ?R"
    by (simp add: marked_by_collect_def white_reachable_clean[OF c1])
  from collect_succeeds[OF no_dangling_clean[OF c1 a1] a2, of verbose t_start t_end]
  obtain gc' mem' out where run: "collect verbose t_start t_end gc mem = Some (Inr (gc', mem', out))"
    by blast
  note c = collect_Inr[OF run]
  have heap: "fset (mHeap gc') = fset (mHeap gc) \<inter> ?R"
    using clean by (auto simp: c(3) M)
  have keep: "fmlookup mem' x = fmlookup mem x" if x: "x |\<in>| mHeap gc'" for x
  proof -
    from collect_survivor_lookup[OF run x] obtain ob where
      ob: "fmlookup mem x = Some ob" "fmlookup mem' x = Some (unmark ob)" by blast
    from x heap clean have "x \<notin> marked mem" by auto
    with ob(1) have "\<not> mMarked ob" by (auto simp: marked_def)
    with ob show ?thesis by (simp add: unmark_unmarked)
  qed
  have dead: "fmlookup mem' x = None" if "x |\<in>| mHeap gc \<and> x |\<notin>| mHeap gc'" for x
  proof -
    from that have "x \<in> fset (mHeap gc) - marked_by_collect gc mem"
      by (auto simp: c(3))
    then show ?thesis unfolding c(4) by simp
  qed
  from run heap keep dead show ?thesis by blast
qed

text \<open>
  Claim C1, as the code has it. Let no heap object and no object reachable from a root or
  a pinned object be marked when \<open>collect\<close> starts, and let these objects be allocated.
  Then \<open>collect\<close> returns; a heap object remains in the heap set if and only if it is
  reachable from a root or a pinned object (which includes being one); a remaining object
  is untouched; every other heap object is removed from the heap set and deleted.
\<close>

theorem collect_keeps_reachable:
  assumes "marked mem \<inter> (fset (mHeap gc) \<union> reachable mem (entry_points gc)) = {}"
    and "fset (mHeap gc) \<union> reachable mem (entry_points gc) \<subseteq> fmdom' mem"
  shows "\<exists>gc' mem' out.
           collect verbose t_start t_end gc mem = Some (Inr (gc', mem', out)) \<and>
           (\<forall>x. x |\<in>| mHeap gc' \<longleftrightarrow>
                  x |\<in>| mHeap gc \<and> x \<in> reachable mem (entry_points gc)) \<and>
           (\<forall>x. x |\<in>| mHeap gc' \<longrightarrow> fmlookup mem' x = fmlookup mem x) \<and>
           (\<forall>x. x |\<in>| mHeap gc \<and> x \<notin> reachable mem (entry_points gc) \<longrightarrow>
                  x |\<notin>| mHeap gc' \<and> fmlookup mem' x = None)"
proof -
  from collect_clean[OF assms, of verbose t_start t_end]
  obtain gc' mem' out where
    run: "collect verbose t_start t_end gc mem = Some (Inr (gc', mem', out))" and
    heap: "fset (mHeap gc') = fset (mHeap gc) \<inter> reachable mem (entry_points gc)" and
    keep: "\<forall>x. x |\<in>| mHeap gc' \<longrightarrow> fmlookup mem' x = fmlookup mem x" and
    dead: "\<forall>x. x |\<in>| mHeap gc \<and> x |\<notin>| mHeap gc' \<longrightarrow> fmlookup mem' x = None"
    by blast
  from heap have iff: "x |\<in>| mHeap gc' \<longleftrightarrow> x |\<in>| mHeap gc \<and> x \<in> reachable mem (entry_points gc)" for x
    by auto
  with dead have "\<forall>x. x |\<in>| mHeap gc \<and> x \<notin> reachable mem (entry_points gc) \<longrightarrow>
                  x |\<notin>| mHeap gc' \<and> fmlookup mem' x = None"
    by blast
  with run iff keep show ?thesis by blast
qed

text \<open>
  Object 1 is a root and references object 2, object 3 is pinned, object 4 references
  object 1 and nothing references it. No object is marked. The hypotheses hold, and the
  cycle keeps 1, 2 and 3 and deletes 4.
\<close>

theorem collect_keeps_reachable_witness:
  "marked (fmupd 1 \<lparr>mMarked = False, refs = [2]\<rparr>
            (fmupd 2 \<lparr>mMarked = False, refs = []\<rparr>
              (fmupd 3 \<lparr>mMarked = False, refs = []\<rparr>
                (fmupd 4 \<lparr>mMarked = False, refs = [1]\<rparr> fmempty))))
     \<inter> (fset (mHeap \<lparr>mHeap = {|1, 2, 3, 4|}, mRoots = {|1|}, mPinned = fmupd 3 1 fmempty\<rparr>)
        \<union> reachable (fmupd 1 \<lparr>mMarked = False, refs = [2]\<rparr>
            (fmupd 2 \<lparr>mMarked = False, refs = []\<rparr>
              (fmupd 3 \<lparr>mMarked = False, refs = []\<rparr>
                (fmupd 4 \<lparr>mMarked = False, refs = [1]\<rparr> fmempty))))
            (entry_points \<lparr>mHeap = {|1, 2, 3, 4|}, mRoots = {|1|}, mPinned = fmupd 3 1 fmempty\<rparr>))
     = {} \<and>
   reachable (fmupd 1 \<lparr>mMarked = False, refs = [2]\<rparr>
            (fmupd 2 \<lparr>mMarked = False, refs = []\<rparr>
              (fmupd 3 \<lparr>mMarked = False, refs = []\<rparr>
                (fmupd 4 \<lparr>mMarked = False, refs = [1]\<rparr> fmempty))))
      (entry_points \<lparr>mHeap = {|1, 2, 3, 4|}, mRoots = {|1|}, mPinned = fmupd 3 1 fmempty\<rparr>)
     = {1, 2, 3} \<and>
   fmdom' (fmupd 1 \<lparr>mMarked = False, refs = [2]\<rparr>
            (fmupd 2 \<lparr>mMarked = False, refs = []\<rparr>
              (fmupd 3 \<lparr>mMarked = False, refs = []\<rparr>
                (fmupd 4 \<lparr>mMarked = False, refs = [1]\<rparr> fmempty))))
     = {1, 2, 3, 4} \<and>
   collect False 0 0
     \<lparr>mHeap = {|1, 2, 3, 4|}, mRoots = {|1|}, mPinned = fmupd 3 1 fmempty\<rparr>
     (fmupd 1 \<lparr>mMarked = False, refs = [2]\<rparr>
       (fmupd 2 \<lparr>mMarked = False, refs = []\<rparr>
         (fmupd 3 \<lparr>mMarked = False, refs = []\<rparr>
           (fmupd 4 \<lparr>mMarked = False, refs = [1]\<rparr> fmempty))))
   = Some (Inr (\<lparr>mHeap = {|1, 2, 3|}, mRoots = {|1|}, mPinned = fmupd 3 1 fmempty\<rparr>,
                fmupd 1 \<lparr>mMarked = False, refs = [2]\<rparr>
                  (fmupd 2 \<lparr>mMarked = False, refs = []\<rparr>
                    (fmupd 3 \<lparr>mMarked = False, refs = []\<rparr> fmempty)),
                []))"
proof -
  let ?gc = "\<lparr>mHeap = {|1, 2, 3, 4|}, mRoots = {|1|}, mPinned = fmupd 3 1 fmempty\<rparr>"
  let ?mem = "fmupd 1 \<lparr>mMarked = False, refs = [2]\<rparr>
       (fmupd 2 \<lparr>mMarked = False, refs = []\<rparr>
         (fmupd 3 \<lparr>mMarked = False, refs = []\<rparr>
           (fmupd 4 \<lparr>mMarked = False, refs = [1]\<rparr> fmempty)))"
  let ?gc' = "\<lparr>mHeap = {|1, 2, 3|}, mRoots = {|1|}, mPinned = fmupd 3 1 fmempty\<rparr>"
  let ?mem' = "fmupd 1 \<lparr>mMarked = False, refs = [2]\<rparr>
                  (fmupd 2 \<lparr>mMarked = False, refs = []\<rparr>
                    (fmupd 3 \<lparr>mMarked = False, refs = []\<rparr> fmempty))"
  have m: "marked ?mem = {}" by (auto simp: marked_def split: if_splits)
  have e: "entry_points ?gc = {1, 3}" by (auto simp: entry_points_def)
  have "reachable ?mem {1, 3} \<subseteq> {1, 2, 3}"
    by (rule reachable_closed) (auto simp: children_def)
  moreover have "(1, 2) \<in> edges ?mem" by (simp add: edges_def children_def)
  then have "2 \<in> reachable ?mem {1, 3}"
    unfolding reachable_def by blast
  moreover have "{1, 3} \<subseteq> reachable ?mem {1, 3}" by (rule reachable_superset)
  ultimately have r: "reachable ?mem (entry_points ?gc) = {1, 2, 3}"
    unfolding e by blast
  have h1: "marked ?mem \<inter> (fset (mHeap ?gc) \<union> reachable ?mem (entry_points ?gc)) = {}"
    unfolding m by simp
  have h2: "fset (mHeap ?gc) \<union> reachable ?mem (entry_points ?gc) \<subseteq> fmdom' ?mem"
    unfolding r by simp
  have run: "collect False 0 0 ?gc ?mem = Some (Inr (?gc', ?mem', []))"
    apply (simp add: collect_eval)
    apply (intro conjI fmap_ext)
     apply auto
    done
  have d: "fmdom' ?mem = {1, 2, 3, 4}" by auto
  from collect_keeps_reachable[OF h1 h2, of False 0 0] h1 r d run show ?thesis
    by blast
qed

text \<open>
  The claim as the specification states it, for every collector state, fails on the code
  when an object is marked before the cycle starts, as \<open>main\<close> does with
  \<open>k[i]->mark()\<close>. Object 1 is a root, marked, and references object 2; object 3 is
  marked and nothing references it. \<open>mark()\<close> returns at once on object 1, so object 2
  stays unmarked: it is reachable from a root and the cycle deletes it. Object 3 is
  neither a root nor pinned nor reachable, and it remains in the heap.
\<close>

theorem collect_keeps_reachable_counterexample:
  "collect False 0 0
     \<lparr>mHeap = {|1, 2, 3|}, mRoots = {|1|}, mPinned = fmempty\<rparr>
     (fmupd 1 \<lparr>mMarked = True, refs = [2]\<rparr>
       (fmupd 2 \<lparr>mMarked = False, refs = []\<rparr>
         (fmupd 3 \<lparr>mMarked = True, refs = []\<rparr> fmempty)))
   = Some (Inr (\<lparr>mHeap = {|1, 3|}, mRoots = {|1|}, mPinned = fmempty\<rparr>,
                fmupd 1 \<lparr>mMarked = False, refs = [2]\<rparr>
                  (fmupd 3 \<lparr>mMarked = False, refs = []\<rparr> fmempty),
                [])) \<and>
   2 \<in> reachable (fmupd 1 \<lparr>mMarked = True, refs = [2]\<rparr>
                    (fmupd 2 \<lparr>mMarked = False, refs = []\<rparr>
                      (fmupd 3 \<lparr>mMarked = True, refs = []\<rparr> fmempty)))
         (entry_points \<lparr>mHeap = {|1, 2, 3|}, mRoots = {|1|}, mPinned = fmempty\<rparr>) \<and>
   2 |\<notin>| mHeap \<lparr>mHeap = {|1, 3|}, mRoots = {|1|}, mPinned = fmempty\<rparr> \<and>
   3 \<notin> reachable (fmupd 1 \<lparr>mMarked = True, refs = [2]\<rparr>
                    (fmupd 2 \<lparr>mMarked = False, refs = []\<rparr>
                      (fmupd 3 \<lparr>mMarked = True, refs = []\<rparr> fmempty)))
         (entry_points \<lparr>mHeap = {|1, 2, 3|}, mRoots = {|1|}, mPinned = fmempty\<rparr>) \<and>
   3 |\<in>| mHeap \<lparr>mHeap = {|1, 3|}, mRoots = {|1|}, mPinned = fmempty\<rparr>"
proof -
  let ?gc = "\<lparr>mHeap = {|1, 2, 3|}, mRoots = {|1|}, mPinned = fmempty\<rparr>"
  let ?mem = "fmupd 1 \<lparr>mMarked = True, refs = [2]\<rparr>
       (fmupd 2 \<lparr>mMarked = False, refs = []\<rparr>
         (fmupd 3 \<lparr>mMarked = True, refs = []\<rparr> fmempty))"
  let ?gc' = "\<lparr>mHeap = {|1, 3|}, mRoots = {|1|}, mPinned = fmempty\<rparr>"
  let ?mem' = "fmupd 1 \<lparr>mMarked = False, refs = [2]\<rparr>
                  (fmupd 3 \<lparr>mMarked = False, refs = []\<rparr> fmempty)"
  have e: "entry_points ?gc = {1}" by (auto simp: entry_points_def)
  have "reachable ?mem {1} \<subseteq> {1, 2}"
    by (rule reachable_closed) (auto simp: children_def)
  then have r3: "3 \<notin> reachable ?mem {1}" by auto
  have "(1, 2) \<in> edges ?mem" by (simp add: edges_def children_def)
  then have r2: "2 \<in> reachable ?mem {1}"
    unfolding reachable_def by blast
  have run: "collect False 0 0 ?gc ?mem = Some (Inr (?gc', ?mem', []))"
    apply (simp add: collect_eval)
    apply (intro conjI fmap_ext)
     apply auto
    done
  from run r2 r3 show ?thesis unfolding e by simp
qed

section \<open>The mark phase and the order of iteration\<close>

text \<open>
  Claim C7, as the code has it. Whatever the order in which the roots and the keys of the
  pin table are visited, the mark phase has the same outcome: the same memory, or the
  same fault. When no object reachable from a root or a pinned object is marked before,
  the objects it marks are exactly those reachable from the roots and the pinned objects,
  and it returns without a fault when they are all allocated.
\<close>

theorem mark_phase_order_independent:
  assumes "set rs \<union> set ps = entry_points gc" and "set rs' \<union> set ps' = entry_points gc"
  shows "mark_phase rs ps mem = mark_phase rs' ps' mem \<and>
         (marked mem \<inter> reachable mem (entry_points gc) = {} \<longrightarrow>
            (\<forall>mem'. mark_phase rs ps mem = Some (Inr mem') \<longrightarrow>
               marked mem' = marked mem \<union> reachable mem (entry_points gc)) \<and>
            (reachable mem (entry_points gc) \<subseteq> fmdom' mem \<longrightarrow>
               (\<exists>mem'. mark_phase rs ps mem = Some (Inr mem'))))"
proof (intro conjI impI allI)
  show "mark_phase rs ps mem = mark_phase rs' ps' mem"
    by (simp add: mark_phase_spec assms)
next
  fix mem'
  assume clean: "marked mem \<inter> reachable mem (entry_points gc) = {}"
    and run: "mark_phase rs ps mem = Some (Inr mem')"
  from run have "mark_run (MarkEach (rs @ ps)) mem = Some (Inr mem')"
    by (simp add: mark_phase_eq)
  from mark_run_marked[OF this] assms(1)
  show "marked mem' = marked mem \<union> reachable mem (entry_points gc)"
    by (simp add: white_reachable_clean[OF clean])
next
  assume clean: "marked mem \<inter> reachable mem (entry_points gc) = {}"
    and alloc: "reachable mem (entry_points gc) \<subseteq> fmdom' mem"
  from no_dangling_clean[OF clean alloc] assms(1)
  show "\<exists>mem'. mark_phase rs ps mem = Some (Inr mem')"
    by (simp add: mark_phase_spec)
qed

text \<open>
  Roots 1 and 2, pinned object 3; 2 references 1, 1 references 3, 3 references 4, and
  object 5 is not referenced. Visiting the roots as 1, 2 or as 2, 1 marks 1, 2, 3 and 4.
\<close>

theorem mark_phase_order_independent_witness:
  "set [1, 2] \<union> set [3]
     = entry_points \<lparr>mHeap = {|1, 2, 3, 4, 5|}, mRoots = {|1, 2|}, mPinned = fmupd 3 1 fmempty\<rparr> \<and>
   set [2, 1] \<union> set [3]
     = entry_points \<lparr>mHeap = {|1, 2, 3, 4, 5|}, mRoots = {|1, 2|}, mPinned = fmupd 3 1 fmempty\<rparr> \<and>
   mark_phase [1, 2] [3]
     (fmupd 1 \<lparr>mMarked = False, refs = [3]\<rparr>
       (fmupd 2 \<lparr>mMarked = False, refs = [1]\<rparr>
         (fmupd 3 \<lparr>mMarked = False, refs = [4]\<rparr>
           (fmupd 4 \<lparr>mMarked = False, refs = []\<rparr>
             (fmupd 5 \<lparr>mMarked = False, refs = []\<rparr> fmempty)))))
   = Some (Inr (fmupd 1 \<lparr>mMarked = True, refs = [3]\<rparr>
       (fmupd 2 \<lparr>mMarked = True, refs = [1]\<rparr>
         (fmupd 3 \<lparr>mMarked = True, refs = [4]\<rparr>
           (fmupd 4 \<lparr>mMarked = True, refs = []\<rparr>
             (fmupd 5 \<lparr>mMarked = False, refs = []\<rparr> fmempty)))))) \<and>
   mark_phase [2, 1] [3]
     (fmupd 1 \<lparr>mMarked = False, refs = [3]\<rparr>
       (fmupd 2 \<lparr>mMarked = False, refs = [1]\<rparr>
         (fmupd 3 \<lparr>mMarked = False, refs = [4]\<rparr>
           (fmupd 4 \<lparr>mMarked = False, refs = []\<rparr>
             (fmupd 5 \<lparr>mMarked = False, refs = []\<rparr> fmempty)))))
   = Some (Inr (fmupd 1 \<lparr>mMarked = True, refs = [3]\<rparr>
       (fmupd 2 \<lparr>mMarked = True, refs = [1]\<rparr>
         (fmupd 3 \<lparr>mMarked = True, refs = [4]\<rparr>
           (fmupd 4 \<lparr>mMarked = True, refs = []\<rparr>
             (fmupd 5 \<lparr>mMarked = False, refs = []\<rparr> fmempty))))))"
proof -
  let ?gc = "\<lparr>mHeap = {|1, 2, 3, 4, 5|}, mRoots = {|1, 2|}, mPinned = fmupd 3 1 fmempty\<rparr>"
  let ?mem = "fmupd 1 \<lparr>mMarked = False, refs = [3]\<rparr>
       (fmupd 2 \<lparr>mMarked = False, refs = [1]\<rparr>
         (fmupd 3 \<lparr>mMarked = False, refs = [4]\<rparr>
           (fmupd 4 \<lparr>mMarked = False, refs = []\<rparr>
             (fmupd 5 \<lparr>mMarked = False, refs = []\<rparr> fmempty))))"
  let ?mem' = "fmupd 1 \<lparr>mMarked = True, refs = [3]\<rparr>
       (fmupd 2 \<lparr>mMarked = True, refs = [1]\<rparr>
         (fmupd 3 \<lparr>mMarked = True, refs = [4]\<rparr>
           (fmupd 4 \<lparr>mMarked = True, refs = []\<rparr>
             (fmupd 5 \<lparr>mMarked = False, refs = []\<rparr> fmempty))))"
  have h1: "set [1, 2] \<union> set [3] = entry_points ?gc" by (auto simp: entry_points_def)
  have h2: "set [2, 1] \<union> set [3] = entry_points ?gc" by (auto simp: entry_points_def)
  have run: "mark_phase [1, 2] [3] ?mem = Some (Inr ?mem')"
    apply (simp add: collect_eval)
    apply (intro conjI fmap_ext)
    apply auto
    done
  from mark_phase_order_independent[OF h1 h2, of ?mem] h1 h2 run show ?thesis
    by simp
qed

text \<open>
  The claim as the specification states it, for every collector state, fails on the code
  when a root is marked before the cycle starts: \<open>mark()\<close> returns at once on the root
  1, and object 2, which the root references, is not marked.
\<close>

theorem mark_phase_order_independent_counterexample:
  "mark_phase [1] []
     (fmupd 1 \<lparr>mMarked = True, refs = [2]\<rparr>
       (fmupd 2 \<lparr>mMarked = False, refs = []\<rparr> fmempty))
   = Some (Inr (fmupd 1 \<lparr>mMarked = True, refs = [2]\<rparr>
                 (fmupd 2 \<lparr>mMarked = False, refs = []\<rparr> fmempty))) \<and>
   2 \<in> reachable (fmupd 1 \<lparr>mMarked = True, refs = [2]\<rparr>
                    (fmupd 2 \<lparr>mMarked = False, refs = []\<rparr> fmempty))
         (entry_points \<lparr>mHeap = {|1, 2|}, mRoots = {|1|}, mPinned = fmempty\<rparr>) \<and>
   2 \<notin> marked (fmupd 1 \<lparr>mMarked = True, refs = [2]\<rparr>
                   (fmupd 2 \<lparr>mMarked = False, refs = []\<rparr> fmempty)) \<and>
   sorted_list_of_fset (mRoots \<lparr>mHeap = {|1, 2|}, mRoots = {|1|}, mPinned = fmempty\<rparr>) = [1] \<and>
   sorted_list_of_fset (fmdom (mPinned \<lparr>mHeap = {|1, 2|}, mRoots = {|1|}, mPinned = fmempty\<rparr>)) = []"
proof -
  let ?gc = "\<lparr>mHeap = {|1, 2|}, mRoots = {|1|}, mPinned = fmempty\<rparr>"
  let ?mem = "fmupd 1 \<lparr>mMarked = True, refs = [2]\<rparr>
       (fmupd 2 \<lparr>mMarked = False, refs = []\<rparr> fmempty)"
  have e: "entry_points ?gc = {1}" by (auto simp: entry_points_def)
  have "(1, 2) \<in> edges ?mem" by (simp add: edges_def children_def)
  then have r2: "2 \<in> reachable ?mem {1}"
    unfolding reachable_def by blast
  have run: "mark_phase [1] [] ?mem = Some (Inr ?mem)"
    by (simp add: collect_eval)
  have m: "2 \<notin> marked ?mem" by (simp add: marked_def)
  have s: "sorted_list_of_fset (mRoots ?gc) = [1]"
          "sorted_list_of_fset (fmdom (mPinned ?gc)) = []"
    by (simp_all add: collect_eval)
  from run r2 m s show ?thesis unfolding e by simp
qed

section \<open>The number of live objects\<close>

lemma sint_of_nat32: "n < 2 ^ 31 \<Longrightarrow> sint (of_nat n :: 32 word) = int n"
  by (simp add: signed_of_nat signed_take_bit_int_eq_self)

text \<open>
  Claim C8, as the code has it. \<open>live()\<close> is the size of the heap set, converted to
  \<open>int\<close>: it is the number of objects in the heap set as long as that is below \<open>2 ^ 31\<close>.
  After a cycle that starts with no mark on a heap object or on an object reachable from a
  root or a pinned object, and with these objects allocated, it is the number of heap
  objects that are reachable from a root or a pinned object.
\<close>

theorem live_after_collect:
  assumes "marked mem \<inter> (fset (mHeap gc) \<union> reachable mem (entry_points gc)) = {}"
    and "fset (mHeap gc) \<union> reachable mem (entry_points gc) \<subseteq> fmdom' mem"
  shows "live gc = of_nat (card (fset (mHeap gc))) \<and>
         (card (fset (mHeap gc)) < 2 ^ 31 \<longrightarrow> sint (live gc) = int (card (fset (mHeap gc)))) \<and>
         (\<exists>gc' mem' out.
            collect verbose t_start t_end gc mem = Some (Inr (gc', mem', out)) \<and>
            live gc' = of_nat (card (fset (mHeap gc) \<inter> reachable mem (entry_points gc))) \<and>
            (card (fset (mHeap gc)) < 2 ^ 31 \<longrightarrow>
               sint (live gc') = int (card (fset (mHeap gc) \<inter> reachable mem (entry_points gc)))))"
proof (intro conjI impI)
  show "live gc = of_nat (card (fset (mHeap gc)))"
    by (simp add: live_def fcard.rep_eq)
next
  assume "card (fset (mHeap gc)) < 2 ^ 31"
  then show "sint (live gc) = int (card (fset (mHeap gc)))"
    by (simp add: live_def fcard.rep_eq sint_of_nat32)
next
  let ?S = "fset (mHeap gc) \<inter> reachable mem (entry_points gc)"
  from collect_clean[OF assms, of verbose t_start t_end]
  obtain gc' mem' out where
    run: "collect verbose t_start t_end gc mem = Some (Inr (gc', mem', out))" and
    heap: "fset (mHeap gc') = ?S"
    by blast
  have l: "live gc' = of_nat (card ?S)"
    by (simp add: live_def fcard.rep_eq heap)
  have "card ?S \<le> card (fset (mHeap gc))"
    by (rule card_mono) auto
  then have "sint (live gc') = int (card ?S)" if "card (fset (mHeap gc)) < 2 ^ 31"
    using that l by (simp add: sint_of_nat32)
  with run l show "\<exists>gc' mem' out.
            collect verbose t_start t_end gc mem = Some (Inr (gc', mem', out)) \<and>
            live gc' = of_nat (card ?S) \<and>
            (card (fset (mHeap gc)) < 2 ^ 31 \<longrightarrow> sint (live gc') = int (card ?S))"
    by blast
qed

text \<open>
  Three unmarked objects in the heap, object 1 a root that references object 2: after the
  cycle \<open>live()\<close> is 2.
\<close>

theorem live_after_collect_witness:
  "marked (fmupd 1 \<lparr>mMarked = False, refs = [2]\<rparr>
            (fmupd 2 \<lparr>mMarked = False, refs = []\<rparr>
              (fmupd 3 \<lparr>mMarked = False, refs = []\<rparr> fmempty)))
     \<inter> (fset (mHeap \<lparr>mHeap = {|1, 2, 3|}, mRoots = {|1|}, mPinned = fmempty\<rparr>)
        \<union> reachable (fmupd 1 \<lparr>mMarked = False, refs = [2]\<rparr>
            (fmupd 2 \<lparr>mMarked = False, refs = []\<rparr>
              (fmupd 3 \<lparr>mMarked = False, refs = []\<rparr> fmempty)))
            (entry_points \<lparr>mHeap = {|1, 2, 3|}, mRoots = {|1|}, mPinned = fmempty\<rparr>))
     = {} \<and>
   fset (mHeap \<lparr>mHeap = {|1, 2, 3|}, mRoots = {|1|}, mPinned = fmempty\<rparr>)
     \<inter> reachable (fmupd 1 \<lparr>mMarked = False, refs = [2]\<rparr>
            (fmupd 2 \<lparr>mMarked = False, refs = []\<rparr>
              (fmupd 3 \<lparr>mMarked = False, refs = []\<rparr> fmempty)))
         (entry_points \<lparr>mHeap = {|1, 2, 3|}, mRoots = {|1|}, mPinned = fmempty\<rparr>)
     = {1, 2} \<and>
   fset (mHeap \<lparr>mHeap = {|1, 2, 3|}, mRoots = {|1|}, mPinned = fmempty\<rparr>)
     \<union> reachable (fmupd 1 \<lparr>mMarked = False, refs = [2]\<rparr>
            (fmupd 2 \<lparr>mMarked = False, refs = []\<rparr>
              (fmupd 3 \<lparr>mMarked = False, refs = []\<rparr> fmempty)))
         (entry_points \<lparr>mHeap = {|1, 2, 3|}, mRoots = {|1|}, mPinned = fmempty\<rparr>)
     \<subseteq> fmdom' (fmupd 1 \<lparr>mMarked = False, refs = [2]\<rparr>
            (fmupd 2 \<lparr>mMarked = False, refs = []\<rparr>
              (fmupd 3 \<lparr>mMarked = False, refs = []\<rparr> fmempty))) \<and>
   collect False 0 0
     \<lparr>mHeap = {|1, 2, 3|}, mRoots = {|1|}, mPinned = fmempty\<rparr>
     (fmupd 1 \<lparr>mMarked = False, refs = [2]\<rparr>
       (fmupd 2 \<lparr>mMarked = False, refs = []\<rparr>
         (fmupd 3 \<lparr>mMarked = False, refs = []\<rparr> fmempty)))
   = Some (Inr (\<lparr>mHeap = {|1, 2|}, mRoots = {|1|}, mPinned = fmempty\<rparr>,
                fmupd 1 \<lparr>mMarked = False, refs = [2]\<rparr>
                  (fmupd 2 \<lparr>mMarked = False, refs = []\<rparr> fmempty),
                [])) \<and>
   sint (live \<lparr>mHeap = {|1, 2|}, mRoots = {|1|}, mPinned = fmempty\<rparr>) = 2"
proof -
  let ?gc = "\<lparr>mHeap = {|1, 2, 3|}, mRoots = {|1|}, mPinned = fmempty\<rparr>"
  let ?mem = "fmupd 1 \<lparr>mMarked = False, refs = [2]\<rparr>
       (fmupd 2 \<lparr>mMarked = False, refs = []\<rparr>
         (fmupd 3 \<lparr>mMarked = False, refs = []\<rparr> fmempty))"
  let ?gc' = "\<lparr>mHeap = {|1, 2|}, mRoots = {|1|}, mPinned = fmempty\<rparr>"
  let ?mem' = "fmupd 1 \<lparr>mMarked = False, refs = [2]\<rparr>
                  (fmupd 2 \<lparr>mMarked = False, refs = []\<rparr> fmempty)"
  have m: "marked ?mem = {}" by (auto simp: marked_def split: if_splits)
  have e: "entry_points ?gc = {1}" by (auto simp: entry_points_def)
  have "reachable ?mem {1} \<subseteq> {1, 2}"
    by (rule reachable_closed) (auto simp: children_def)
  moreover have "(1, 2) \<in> edges ?mem" by (simp add: edges_def children_def)
  then have "2 \<in> reachable ?mem {1}"
    unfolding reachable_def by blast
  moreover have "{1} \<subseteq> reachable ?mem {1}" by (rule reachable_superset)
  ultimately have r: "reachable ?mem (entry_points ?gc) = {1, 2}"
    unfolding e by blast
  have h1: "marked ?mem \<inter> (fset (mHeap ?gc) \<union> reachable ?mem (entry_points ?gc)) = {}"
    unfolding m by simp
  have h2: "fset (mHeap ?gc) \<union> reachable ?mem (entry_points ?gc) \<subseteq> fmdom' ?mem"
    unfolding r by simp
  have i: "fset (mHeap ?gc) \<inter> reachable ?mem (entry_points ?gc) = {1, 2}"
    unfolding r by auto
  have run: "collect False 0 0 ?gc ?mem = Some (Inr (?gc', ?mem', []))"
    apply (simp add: collect_eval)
    apply (intro conjI fmap_ext)
     apply auto
    done
  from live_after_collect[OF h1 h2, of False 0 0] obtain g m' out where
    a: "collect False 0 0 ?gc ?mem = Some (Inr (g, m', out))" and
    b: "card (fset (mHeap ?gc)) < 2 ^ 31 \<longrightarrow>
          sint (live g) = int (card (fset (mHeap ?gc) \<inter> reachable ?mem (entry_points ?gc)))"
    by blast
  from a run have g: "g = ?gc'" by simp
  have small: "card (fset (mHeap ?gc)) < 2 ^ 31" by simp
  from b small have "sint (live g) = int (card (fset (mHeap ?gc) \<inter> reachable ?mem (entry_points ?gc)))"
    by blast
  then have "sint (live ?gc') = 2" unfolding i g by simp
  with h1 h2 i run show ?thesis by blast
qed

text \<open>
  The claim as the specification states it fails on the code when an object is marked
  before the cycle starts, as \<open>main\<close> does with \<open>k[i]->mark()\<close>: the object is neither a
  root nor pinned nor reachable from one, it survives the cycle, and \<open>live()\<close> is 1 where
  the claim counts no object.
\<close>

theorem live_after_collect_counterexample:
  "collect False 0 0
     \<lparr>mHeap = {|1|}, mRoots = {||}, mPinned = fmempty\<rparr>
     (fmupd 1 \<lparr>mMarked = True, refs = []\<rparr> fmempty)
   = Some (Inr (\<lparr>mHeap = {|1|}, mRoots = {||}, mPinned = fmempty\<rparr>,
                fmupd 1 \<lparr>mMarked = False, refs = []\<rparr> fmempty,
                [])) \<and>
   sint (live \<lparr>mHeap = {|1|}, mRoots = {||}, mPinned = fmempty\<rparr>) = 1 \<and>
   card (reachable (fmupd 1 \<lparr>mMarked = True, refs = []\<rparr> fmempty)
           (entry_points \<lparr>mHeap = {|1|}, mRoots = {||}, mPinned = fmempty\<rparr>)) = 0"
proof -
  let ?gc = "\<lparr>mHeap = {|1|}, mRoots = {||}, mPinned = fmempty\<rparr>"
  let ?mem = "fmupd 1 \<lparr>mMarked = True, refs = []\<rparr> fmempty"
  have e: "entry_points ?gc = {}" by (simp add: entry_points_def)
  have r: "reachable ?mem {} = {}" by (simp add: reachable_def)
  have run: "collect False 0 0 ?gc ?mem
             = Some (Inr (?gc, fmupd 1 \<lparr>mMarked = False, refs = []\<rparr> fmempty, []))"
    by (simp add: collect_eval)
  have l: "sint (live ?gc) = 1"
    by (simp add: live_def collect_eval)
  from run l show ?thesis unfolding e r by simp
qed

end
